theory Spec2Isabelle
  imports Complex_Main "HOL-Library.Multiset"
begin

section \<open>JavaScript values used by the tour editor\<close>

text \<open>
  The editor (\<^verbatim>\<open>tour-editor.js\<close>) keeps one configuration object, \<^verbatim>\<open>tourConfig\<close>, and a few
  global variables. This theory embeds the functions that change the configuration as
  HOL functions on an explicit state. Form fields, the answers of \<^verbatim>\<open>confirm\<close> dialogs and
  the presence of the Pannellum viewer are inputs of the functions.

  Limits of the model, stated once:
  \<^item> the camera angles are reals (no NaN, no rounding); the counters are integers, and
    what the arithmetic of doubles does to them is written out (\<open>double_round\<close>); strings
    are lists of 8-bit characters;
  \<^item> every scene carries a \<^verbatim>\<open>hotSpots\<close> array and every hotspot id is a string or absent;
  \<^item> a scene map is a plain object and holds scenes only. Where the code tests
    \<^verbatim>\<open>tourConfig.scenes[k]\<close> for truth, the members inherited from \<^verbatim>\<open>Object.prototype\<close>
    count (\<open>has_member\<close>); where it would store such a member in the map, or assign to
    the key \<^verbatim>\<open>__proto__\<close>, the model does not follow.
\<close>

subsection \<open>Strings\<close>

definition is_ws :: "char \<Rightarrow> bool" where
  \<comment> \<open>the white space and line terminators below 256 that \<^verbatim>\<open>trim\<close> and \<^verbatim>\<open>parseInt\<close> skip\<close>
  "is_ws c \<longleftrightarrow>
     c \<in> set [CHR 0x09, CHR 0x0A, CHR 0x0B, CHR 0x0C, CHR 0x0D, CHR 0x20, CHR 0xA0]"

definition trim :: "string \<Rightarrow> string" where
  "trim s = rev (dropWhile is_ws (rev (dropWhile is_ws s)))"

definition id_char :: "char \<Rightarrow> bool" where
  \<comment> \<open>the character class \<^verbatim>\<open>[a-zA-Z0-9_-]\<close>\<close>
  "id_char c \<longleftrightarrow>
     c \<in> set ''abcdefghijklmnopqrstuvwxyzABCDEFGHIJKLMNOPQRSTUVWXYZ0123456789_-''"

definition id_pattern :: "string \<Rightarrow> bool" where
  \<comment> \<open>\<^verbatim>\<open>/^[a-zA-Z0-9_-]+$/.test(s)\<close>\<close>
  "id_pattern s \<longleftrightarrow> s \<noteq> [] \<and> list_all id_char s"

definition startsWith :: "string \<Rightarrow> string \<Rightarrow> bool" where
  "startsWith s p \<longleftrightarrow> take (length p) s = p"

fun split :: "char \<Rightarrow> string \<Rightarrow> string list" where
  \<comment> \<open>\<^verbatim>\<open>s.split(c)\<close> for a one-character separator\<close>
  "split c [] = [[]]"
| "split c (x # xs) =
     (if x = c then [] # split c xs
      else (case split c xs of [] \<Rightarrow> [[x]] | p # ps \<Rightarrow> (x # p) # ps))"

definition padStart :: "nat \<Rightarrow> char \<Rightarrow> string \<Rightarrow> string" where
  "padStart n c s = replicate (n - length s) c @ s"

subsection \<open>Numbers\<close>

definition is_digit :: "char \<Rightarrow> bool" where
  "is_digit c \<longleftrightarrow> c \<in> set ''0123456789''"

definition digit_val :: "char \<Rightarrow> nat" where
  "digit_val c = of_char c - 48"

definition digit_char :: "nat \<Rightarrow> char" where
  "digit_char d = ''0123456789'' ! d"

fun dec :: "nat \<Rightarrow> string" where
  \<comment> \<open>decimal digits of a natural number, no leading zero\<close>
  "dec n = (if n < 10 then [digit_char n] else dec (n div 10) @ [digit_char (n mod 10)])"

declare dec.simps [simp del]

definition dec_value :: "string \<Rightarrow> nat" where
  "dec_value s = foldl (\<lambda>a c. a * 10 + digit_val c) 0 s"

definition Number_toString :: "int \<Rightarrow> string" where
  \<comment> \<open>what a template literal prints for an integer below \<open>10^21\<close> in absolute value
      (from there on JavaScript prints an exponent)\<close>
  "Number_toString i = (if i < 0 then CHR ''-'' # dec (nat (- i)) else dec (nat i))"

text \<open>
  JavaScript numbers are doubles. An integer is a double when 53 bits hold its absolute
  value up to a power of two; up to \<open>2^53\<close> every integer is one. \<open>ulp a\<close> is the distance
  between neighbouring doubles at \<open>a\<close>, and \<open>double_round x\<close> is the double nearest to the
  integer \<open>x\<close>, the one with the even significand when \<open>x\<close> lies half way (overflow to
  \<^verbatim>\<open>Infinity\<close>, from \<open>2^1024\<close> on, is left out).
\<close>

function ulp :: "nat \<Rightarrow> nat" where
  "ulp a = (if a < 2 ^ 53 then 1 else 2 * ulp (a div 2))"
  by pat_completeness auto
termination
  by (relation "measure (\<lambda>a. a)") auto

declare ulp.simps [simp del]

definition double_round :: "int \<Rightarrow> int" where
  "double_round x =
     (let a = nat \<bar>x\<bar>; q = ulp a; lo = a div q * q; r = a mod q;
          m = (if 2 * r < q then lo
               else if q < 2 * r then lo + q
               else if even (a div q) then lo else lo + q)
      in sgn x * int m)"

definition radix_digit :: "nat \<Rightarrow> char \<Rightarrow> nat option" where
  "radix_digit r c =
     (let v = (if c \<in> set ''0123456789'' then Some (of_char c - 48)
               else if c \<in> set ''abcdefghijklmnopqrstuvwxyz'' then Some (of_char c - 87)
               else if c \<in> set ''ABCDEFGHIJKLMNOPQRSTUVWXYZ'' then Some (of_char c - 55)
               else None)
      in case v of None \<Rightarrow> None | Some d \<Rightarrow> if d < r then Some d else None)"

definition parseInt :: "string \<Rightarrow> int option" where
  \<comment> \<open>\<^verbatim>\<open>parseInt(s)\<close> without a radix; \<open>None\<close> is NaN; the digits are read exactly and
      the result is rounded to a double\<close>
  "parseInt str =
     (let s = dropWhile is_ws str;
          neg = (s \<noteq> [] \<and> hd s = CHR ''-'');
          s1 = (if s \<noteq> [] \<and> (hd s = CHR ''+'' \<or> hd s = CHR ''-'') then tl s else s);
          hex = (take 2 s1 = ''0x'' \<or> take 2 s1 = ''0X'');
          s2 = (if hex then drop 2 s1 else s1);
          r = (if hex then 16 else 10);
          z = takeWhile (\<lambda>c. radix_digit r c \<noteq> None) s2;
          m = foldl (\<lambda>a c. a * r + the (radix_digit r c)) 0 z
      in if z = [] then None else Some (double_round (if neg then - int m else int m)))"

subsection \<open>Arrays\<close>

fun indexOf :: "'a list \<Rightarrow> 'a \<Rightarrow> int" where
  \<comment> \<open>\<^verbatim>\<open>xs.indexOf(x)\<close>: the first position of \<open>x\<close>, or -1\<close>
  "indexOf [] x = - 1"
| "indexOf (y # ys) x =
     (if y = x then 0 else (let i = indexOf ys x in if i = - 1 then - 1 else i + 1))"

definition splice_remove :: "nat \<Rightarrow> 'a list \<Rightarrow> 'a list" where
  \<comment> \<open>\<^verbatim>\<open>xs.splice(i, 1)\<close>\<close>
  "splice_remove i xs = take i xs @ drop (Suc i) xs"

definition splice_insert :: "nat \<Rightarrow> 'a \<Rightarrow> 'a list \<Rightarrow> 'a list" where
  \<comment> \<open>\<^verbatim>\<open>xs.splice(i, 0, x)\<close>; a start beyond the end appends\<close>
  "splice_insert i x xs = take i xs @ x # drop i xs"

subsection \<open>Objects as ordered property lists\<close>

text \<open>
  \<^verbatim>\<open>Object.keys\<close>, \<^verbatim>\<open>Object.values\<close>, \<^verbatim>\<open>Object.entries\<close> and \<^verbatim>\<open>for ... of\<close> list the own
  properties of an object in the order ECMAScript fixes (OrdinaryOwnPropertyKeys): first
  the keys that are array indices (canonical decimal numerals below \<open>2^32 - 1\<close>) in
  ascending numeric order, then all other string keys in the order they were created.
  An object is modelled by the list of its properties in that order.
\<close>

type_synonym 'v obj = "(string \<times> 'v) list"

definition is_array_index :: "string \<Rightarrow> bool" where
  "is_array_index k \<longleftrightarrow>
     k \<noteq> [] \<and> list_all is_digit k \<and> (k = ''0'' \<or> hd k \<noteq> CHR ''0'') \<and>
     dec_value k < 2 ^ 32 - 1"

definition key_precedes :: "string \<Rightarrow> string \<Rightarrow> bool" where
  \<comment> \<open>a new key \<open>k\<close> is listed before the existing key \<open>k'\<close>\<close>
  "key_precedes k k' \<longleftrightarrow>
     is_array_index k \<and> (is_array_index k' \<longrightarrow> dec_value k < dec_value k')"

definition Object_keys :: "'v obj \<Rightarrow> string list" where
  "Object_keys m = map fst m"

definition Object_values :: "'v obj \<Rightarrow> 'v list" where
  "Object_values m = map snd m"

definition obj_get :: "'v obj \<Rightarrow> string \<Rightarrow> 'v option" where
  \<comment> \<open>\<^verbatim>\<open>m[k]\<close>; \<open>None\<close> is \<^verbatim>\<open>undefined\<close>\<close>
  "obj_get m k = map_of m k"

fun obj_insert_new :: "string \<Rightarrow> 'v \<Rightarrow> 'v obj \<Rightarrow> 'v obj" where
  "obj_insert_new k v [] = [(k, v)]"
| "obj_insert_new k v ((k', v') # m) =
     (if key_precedes k k' then (k, v) # (k', v') # m
      else (k', v') # obj_insert_new k v m)"

definition obj_modify :: "string \<Rightarrow> ('v \<Rightarrow> 'v) \<Rightarrow> 'v obj \<Rightarrow> 'v obj" where
  \<comment> \<open>mutation of the value held under an existing key; the key keeps its place\<close>
  "obj_modify k f m = map (\<lambda>(k', v). if k' = k then (k', f v) else (k', v)) m"

definition obj_set :: "string \<Rightarrow> 'v \<Rightarrow> 'v obj \<Rightarrow> 'v obj" where
  \<comment> \<open>\<^verbatim>\<open>m[k] = v\<close>\<close>
  "obj_set k v m =
     (if k \<in> set (Object_keys m) then obj_modify k (\<lambda>_. v) m else obj_insert_new k v m)"

definition obj_delete :: "string \<Rightarrow> 'v obj \<Rightarrow> 'v obj" where
  \<comment> \<open>\<^verbatim>\<open>delete m[k]\<close>\<close>
  "obj_delete k m = filter (\<lambda>(k', v). k' \<noteq> k) m"

definition prototype_member :: "string \<Rightarrow> bool" where
  \<comment> \<open>the names of the members that every plain object inherits from \<^verbatim>\<open>Object.prototype\<close>\<close>
  "prototype_member k \<longleftrightarrow>
     k \<in> set [''constructor'', ''__proto__'', ''hasOwnProperty'', ''isPrototypeOf'',
              ''propertyIsEnumerable'', ''toLocaleString'', ''toString'', ''valueOf'',
              ''__defineGetter__'', ''__defineSetter__'', ''__lookupGetter__'',
              ''__lookupSetter__'']"

definition has_member :: "'v obj \<Rightarrow> string \<Rightarrow> bool" where
  \<comment> \<open>the test \<^verbatim>\<open>if (m[k])\<close> on a map of objects: an own property, or an inherited member
      (all of them are functions or objects, hence true)\<close>
  "has_member m k \<longleftrightarrow> obj_get m k \<noteq> None \<or> prototype_member k"

definition select_value :: "string list \<Rightarrow> string \<Rightarrow> string" where
  \<comment> \<open>assigning to the value of a drop-down and reading it back: a value that is no
      option selects nothing\<close>
  "select_value options v = (if v \<in> set options then v else [])"

definition js_ordered :: "string list \<Rightarrow> bool" where
  \<comment> \<open>the key lists that an object can have\<close>
  "js_ordered ks \<longleftrightarrow>
     distinct ks \<and>
     ks = filter is_array_index ks @ filter (\<lambda>k. \<not> is_array_index k) ks \<and>
     sorted_wrt (<) (map dec_value (filter is_array_index ks))"

section \<open>The tour configuration\<close>

record hotspot =
  hs_pitch :: real
  hs_yaw :: real
  hs_type :: string
  hs_text :: string
  hs_sceneId :: string
  hs_id :: "string option"
  targetPitch :: real
  targetYaw :: real
  targetHfov :: real

record multiRes =
  basePath :: string
  path :: string
  fallbackPath :: string
  extension :: string
  tileResolution :: int
  maxLevel :: int
  cubeResolution :: int

record scene =
  hfov :: real
  pitch :: real
  yaw :: real
  scene_type :: string
  preview :: string
  multiRes :: multiRes
  hotSpots :: "hotspot list"

record defaults =
  firstScene :: string
  sceneOrder :: "string list"
  sceneFadeDuration :: int
  autoLoad :: bool

record tourConfig =
  tc_default :: defaults
  scenes :: "scene obj"

record pending =
  p_pitch :: real
  p_yaw :: real
  isEditing :: bool
  editIndex :: "nat option"

text \<open>
  The global variables. \<open>currentScene\<close> is a string; the empty string stands for both
  \<^verbatim>\<open>null\<close> and the empty selection. The code tests \<open>currentScene\<close> for truth and tells
  the two apart only where it prints it into a hotspot id, which it does when a scene is
  selected.
\<close>

record editor =
  config :: tourConfig
  currentScene :: string
  pendingHotspot :: "pending option"
  hotspotCounter :: int

definition initial_editor :: editor where
  "initial_editor =
     \<lparr>config = \<lparr>tc_default = \<lparr>firstScene = [], sceneOrder = [],
                                sceneFadeDuration = 1000, autoLoad = True\<rparr>,
                scenes = []\<rparr>,
      currentScene = [], pendingHotspot = None, hotspotCounter = 0\<rparr>"

abbreviation ed_scenes :: "editor \<Rightarrow> scene obj" where
  "ed_scenes st \<equiv> scenes (config st)"

abbreviation ed_sceneOrder :: "editor \<Rightarrow> string list" where
  "ed_sceneOrder st \<equiv> sceneOrder (tc_default (config st))"

abbreviation ed_firstScene :: "editor \<Rightarrow> string" where
  "ed_firstScene st \<equiv> firstScene (tc_default (config st))"

definition set_scenes :: "scene obj \<Rightarrow> editor \<Rightarrow> editor" where
  "set_scenes m st = st\<lparr>config := (config st)\<lparr>scenes := m\<rparr>\<rparr>"

definition set_sceneOrder :: "string list \<Rightarrow> editor \<Rightarrow> editor" where
  "set_sceneOrder ks st =
     st\<lparr>config := (config st)\<lparr>tc_default := (tc_default (config st))\<lparr>sceneOrder := ks\<rparr>\<rparr>\<rparr>"

definition set_firstScene :: "string \<Rightarrow> editor \<Rightarrow> editor" where
  "set_firstScene k st =
     st\<lparr>config := (config st)\<lparr>tc_default := (tc_default (config st))\<lparr>firstScene := k\<rparr>\<rparr>\<rparr>"


section \<open>Identifier policy\<close>

record validation =
  isValid :: bool
  errorMessage :: "string option"

fun duplicate_in_hotspots :: "string \<Rightarrow> bool \<Rightarrow> int \<Rightarrow> int \<Rightarrow> hotspot list \<Rightarrow> bool" where
  \<comment> \<open>the inner \<^verbatim>\<open>for\<close> loop of \<^verbatim>\<open>validateHotspotId\<close>, from index \<open>i\<close> on;
      \<open>same\<close> says that the scene being checked is the scene of the edited hotspot\<close>
  "duplicate_in_hotspots hotspotId same excludeIndex i [] = False"
| "duplicate_in_hotspots hotspotId same excludeIndex i (h # hs) =
     (if same \<and> i = excludeIndex then duplicate_in_hotspots hotspotId same excludeIndex (i + 1) hs
      else if hs_id h = Some hotspotId then True
      else duplicate_in_hotspots hotspotId same excludeIndex (i + 1) hs)"

fun find_duplicate :: "string \<Rightarrow> string \<Rightarrow> int \<Rightarrow> scene obj \<Rightarrow> string option" where
  \<comment> \<open>the outer loop: the id of the first scene that holds a duplicate\<close>
  "find_duplicate hotspotId sceneId excludeIndex [] = None"
| "find_duplicate hotspotId sceneId excludeIndex ((checkSceneId, sc) # m) =
     (if duplicate_in_hotspots hotspotId (checkSceneId = sceneId) excludeIndex 0 (hotSpots sc)
      then Some checkSceneId
      else find_duplicate hotspotId sceneId excludeIndex m)"

definition validateHotspotId :: "string \<Rightarrow> string \<Rightarrow> int \<Rightarrow> scene obj \<Rightarrow> validation" where
  "validateHotspotId hotspotId sceneId excludeIndex m =
     (if hotspotId = [] \<or> trim hotspotId = [] then \<lparr>isValid = True, errorMessage = None\<rparr>
      else if \<not> id_pattern hotspotId then
        \<lparr>isValid = False,
         errorMessage =
           Some ''Hotspot ID can only contain letters, numbers, underscores, and hyphens''\<rparr>
      else (case find_duplicate hotspotId sceneId excludeIndex m of
              Some checkSceneId \<Rightarrow>
                \<lparr>isValid = False,
                 errorMessage =
                   Some (''Hotspot ID '' @ [CHR 0x22] @ hotspotId @ [CHR 0x22] @
                         '' already exists in scene '' @ [CHR 0x22] @ checkSceneId @ [CHR 0x22])\<rparr>
            | None \<Rightarrow> \<lparr>isValid = True, errorMessage = None\<rparr>))"

definition isHotspotIdInUse :: "string \<Rightarrow> scene obj \<Rightarrow> bool" where
  "isHotspotIdInUse hotspotId m =
     list_ex (\<lambda>sc. list_ex (\<lambda>h. hs_id h = Some hotspotId) (hotSpots sc)) (Object_values m)"

definition candidateId :: "string \<Rightarrow> nat \<Rightarrow> string" where
  "candidateId targetSceneId counter =
     ''hs_'' @ targetSceneId @ ''_'' @ padStart 3 (CHR ''0'') (dec counter)"

definition id_length_bound :: "scene obj \<Rightarrow> nat" where
  \<comment> \<open>no id of the document is longer than this; used for termination only\<close>
  "id_length_bound m =
     sum_list (map (\<lambda>sc. sum_list (map (\<lambda>h. case hs_id h of None \<Rightarrow> 0 | Some s \<Rightarrow> length s)
                                      (hotSpots sc))) (Object_values m))"

function generate_from :: "string \<Rightarrow> scene obj \<Rightarrow> nat \<Rightarrow> string" where
  \<comment> \<open>the \<^verbatim>\<open>do ... while\<close> loop of \<^verbatim>\<open>generateSceneBasedHotspotId\<close>\<close>
  "generate_from targetSceneId m counter =
     (if isHotspotIdInUse (candidateId targetSceneId counter) m
      then generate_from targetSceneId m (counter + 1)
      else candidateId targetSceneId counter)"
  by pat_completeness auto
termination
proof (relation "measure (\<lambda>(t, m, counter). 10 ^ id_length_bound m - counter)")
  show "wf (measure (\<lambda>(t, m, counter). 10 ^ id_length_bound m - counter))"
    by simp
next
  fix targetSceneId :: string and m :: "scene obj" and counter :: nat
  assume used: "isHotspotIdInUse (candidateId targetSceneId counter) m"
  have digits: "n < 10 ^ length (dec n)" for n :: nat
  proof (induction n rule: dec.induct)
    case (1 n)
    show ?case
    proof (cases "n < 10")
      case True
      then show ?thesis by (simp add: dec.simps [of n])
    next
      case False
      then have "n div 10 < 10 ^ length (dec (n div 10))" using "1.IH" by simp
      then have "n < 10 * 10 ^ length (dec (n div 10))" by linarith
      then show ?thesis using False by (simp add: dec.simps [of n])
    qed
  qed
  have inner: "list_ex (\<lambda>h. hs_id h = Some c) hs \<Longrightarrow>
      length c \<le> sum_list (map (\<lambda>h. case hs_id h of None \<Rightarrow> 0 | Some s \<Rightarrow> length s) hs)"
    for c :: string and hs :: "hotspot list"
    by (induction hs) auto
  have outer: "list_ex (\<lambda>sc. list_ex (\<lambda>h. hs_id h = Some c) (hotSpots sc)) scs \<Longrightarrow>
      length c \<le> sum_list (map (\<lambda>sc. sum_list (map (\<lambda>h. case hs_id h of None \<Rightarrow> 0
        | Some s \<Rightarrow> length s) (hotSpots sc))) scs)"
    for c :: string and scs :: "scene list"
  proof (induction scs)
    case Nil
    then show ?case by simp
  next
    case (Cons sc scs)
    then show ?case using inner [of c "hotSpots sc"] by auto
  qed
  have "length (candidateId targetSceneId counter) \<le> id_length_bound m"
    using used outer unfolding isHotspotIdInUse_def id_length_bound_def by blast
  then have "length (dec counter) \<le> id_length_bound m"
    by (simp add: candidateId_def padStart_def)
  then have "(10::nat) ^ length (dec counter) \<le> 10 ^ id_length_bound m"
    by (simp add: power_increasing)
  then have "counter < 10 ^ id_length_bound m"
    using digits [of counter] by linarith
  then show "((targetSceneId, m, counter + 1), (targetSceneId, m, counter))
      \<in> measure (\<lambda>(t, m, counter). 10 ^ id_length_bound m - counter)"
    by simp
qed

declare generate_from.simps [simp del]

definition generateSceneBasedHotspotId :: "string \<Rightarrow> scene obj \<Rightarrow> string" where
  "generateSceneBasedHotspotId targetSceneId m = generate_from targetSceneId m 1"

section \<open>Scene operations\<close>

definition new_scene :: "string \<Rightarrow> int \<Rightarrow> int \<Rightarrow> scene" where
  "new_scene newScenePath maxLevel' cubeResolution' =
     \<lparr>hfov = 100, pitch = 0, yaw = 0, scene_type = ''multires'',
      preview = newScenePath @ ''1/f_0_0.jpg'',
      multiRes = \<lparr>basePath = newScenePath, path = ''%l/%s_%y_%x'',
                  fallbackPath = ''/fallback/%s'', extension = ''jpg'',
                  tileResolution = 512, maxLevel = maxLevel',
                  cubeResolution = cubeResolution'\<rparr>,
      hotSpots = []\<rparr>"

definition addNewScene :: "string \<Rightarrow> string \<Rightarrow> int \<Rightarrow> int \<Rightarrow> editor \<Rightarrow> editor" where
  \<comment> \<open>the arguments are the four form fields; the function ends with \<^verbatim>\<open>selectScene()\<close>
      on the new id\<close>
  "addNewScene idField pathField maxLevel' cubeResolution' st =
     (let newSceneId = trim idField; newScenePath = trim pathField in
      if newSceneId = [] \<or> newScenePath = [] then st
      else if has_member (ed_scenes st) newSceneId then st
      else
        let st1 = set_scenes (obj_set newSceneId
                    (new_scene newScenePath maxLevel' cubeResolution') (ed_scenes st)) st;
            st2 = set_sceneOrder (ed_sceneOrder st1 @ [newSceneId]) st1;
            st3 = (if length (Object_keys (ed_scenes st2)) = 1
                   then set_firstScene newSceneId st2 else st2)
        in st3\<lparr>currentScene := newSceneId\<rparr>)"

definition first_key :: "'v obj \<Rightarrow> string" where
  \<comment> \<open>\<^verbatim>\<open>keys.length > 0 ? keys[0] : ""\<close>\<close>
  "first_key m = (case Object_keys m of [] \<Rightarrow> [] | k # _ \<Rightarrow> k)"

definition deleteCurrentScene :: "bool \<Rightarrow> bool \<Rightarrow> editor \<Rightarrow> editor" where
  \<comment> \<open>\<open>confirmed\<close> is the answer of the confirmation dialog, \<open>viewer\<close> says whether a
      viewer instance exists\<close>
  "deleteCurrentScene confirmed viewer st =
     (if currentScene st = [] then st
      else if \<not> confirmed then st
      else
        let sceneToDelete = currentScene st;
            remaining = filter (\<lambda>k. k \<noteq> sceneToDelete) (Object_keys (ed_scenes st));
            cur = (if viewer then (case remaining of [] \<Rightarrow> [] | k # _ \<Rightarrow> k) else []);
            st1 = set_scenes (obj_delete sceneToDelete (ed_scenes st)) st;
            orderIndex = indexOf (ed_sceneOrder st1) sceneToDelete;
            st2 = (if orderIndex > - 1
                   then set_sceneOrder (splice_remove (nat orderIndex) (ed_sceneOrder st1)) st1
                   else st1);
            st3 = (if ed_firstScene st2 = sceneToDelete
                   then set_firstScene (first_key (ed_scenes st2)) st2 else st2);
            st4 = set_scenes
                    (map (\<lambda>(k, sc). (k, sc\<lparr>hotSpots :=
                            filter (\<lambda>h. hs_sceneId h \<noteq> sceneToDelete) (hotSpots sc)\<rparr>))
                         (ed_scenes st3)) st3
        in st4\<lparr>currentScene := cur\<rparr>)"

definition selectScene :: "string \<Rightarrow> editor \<Rightarrow> editor" where
  \<comment> \<open>the argument is the value of the scene drop-down\<close>
  "selectScene v st = st\<lparr>currentScene := v\<rparr>"

record updates =
  u_targetPitch :: "real option"
  u_targetYaw :: "real option"
  u_targetHfov :: "real option"

definition apply_updates :: "updates \<Rightarrow> hotspot \<Rightarrow> hotspot" where
  "apply_updates u h =
     (let h1 = (case u_targetPitch u of None \<Rightarrow> h | Some v \<Rightarrow> h\<lparr>targetPitch := v\<rparr>);
          h2 = (case u_targetYaw u of None \<Rightarrow> h1 | Some v \<Rightarrow> h1\<lparr>targetYaw := v\<rparr>)
      in case u_targetHfov u of None \<Rightarrow> h2 | Some v \<Rightarrow> h2\<lparr>targetHfov := v\<rparr>)"

fun update_hotspots :: "string \<Rightarrow> updates \<Rightarrow> hotspot list \<Rightarrow> nat \<Rightarrow> hotspot list \<times> nat" where
  \<comment> \<open>the inner \<^verbatim>\<open>forEach\<close> of \<^verbatim>\<open>updateHotspotReferences\<close>, threading \<^verbatim>\<open>updateCount\<close>\<close>
  "update_hotspots targetSceneId u [] updateCount = ([], updateCount)"
| "update_hotspots targetSceneId u (h # hs) updateCount =
     (if hs_sceneId h = targetSceneId
      then (let (hs', n) = update_hotspots targetSceneId u hs (updateCount + 1)
            in (apply_updates u h # hs', n))
      else (let (hs', n) = update_hotspots targetSceneId u hs updateCount
            in (h # hs', n)))"

fun update_scenes :: "string \<Rightarrow> updates \<Rightarrow> scene obj \<Rightarrow> nat \<Rightarrow> scene obj \<times> nat" where
  "update_scenes targetSceneId u [] updateCount = ([], updateCount)"
| "update_scenes targetSceneId u ((sceneId, sc) # m) updateCount =
     (let (hs', n) = update_hotspots targetSceneId u (hotSpots sc) updateCount;
          (m', n') = update_scenes targetSceneId u m n
      in ((sceneId, sc\<lparr>hotSpots := hs'\<rparr>) # m', n'))"

definition updateHotspotReferences :: "string \<Rightarrow> updates \<Rightarrow> editor \<Rightarrow> editor \<times> nat" where
  "updateHotspotReferences targetSceneId u st =
     (let (m', n) = update_scenes targetSceneId u (ed_scenes st) 0 in (set_scenes m' st, n))"

definition updateSceneWithCapturedView :: "real \<Rightarrow> real \<Rightarrow> real \<Rightarrow> editor \<Rightarrow> editor \<times> nat" where
  \<comment> \<open>the second component is \<^verbatim>\<open>updateCount\<close>, which the function logs and tests to
      decide whether the viewer is refreshed; 0 when the function returns at once\<close>
  "updateSceneWithCapturedView pitch' yaw' hfov' st =
     (if currentScene st = [] \<or> obj_get (ed_scenes st) (currentScene st) = None then (st, 0)
      else
        let st1 = set_scenes (obj_modify (currentScene st)
                    (\<lambda>sc. sc\<lparr>pitch := pitch', yaw := yaw', hfov := hfov'\<rparr>) (ed_scenes st)) st
        in updateHotspotReferences (currentScene st)
             \<lparr>u_targetPitch = Some pitch', u_targetYaw = Some yaw', u_targetHfov = Some hfov'\<rparr>
             st1)"

definition renameScene :: "string \<Rightarrow> string \<Rightarrow> bool \<Rightarrow> editor \<Rightarrow> bool \<times> editor" where
  \<comment> \<open>\<open>confirmed\<close> is the answer of the confirmation dialog; the function ends by
      assigning the new id to the scene drop-down and calling \<^verbatim>\<open>selectScene()\<close>\<close>
  "renameScene oldSceneId newSceneId confirmed st =
     (if newSceneId = [] \<or> trim newSceneId = [] then (False, st)
      else if \<not> id_pattern newSceneId then (False, st)
      else if oldSceneId = newSceneId then (True, st)
      else if has_member (ed_scenes st) newSceneId then (False, st)
      else if \<not> confirmed then (False, st)
      else
        let updatedScenes =
              fold (\<lambda>(key, value) acc.
                      if key = oldSceneId then obj_set newSceneId value acc
                      else obj_set key value acc) (ed_scenes st) [];
            st1 = set_scenes updatedScenes st;
            st2 = set_scenes
                    (map (\<lambda>(k, sc). (k, sc\<lparr>hotSpots :=
                            map (\<lambda>h. if hs_sceneId h = oldSceneId
                                      then h\<lparr>hs_sceneId := newSceneId\<rparr> else h)
                                (hotSpots sc)\<rparr>))
                         (ed_scenes st1)) st1;
            orderIndex = indexOf (ed_sceneOrder st2) oldSceneId;
            st3 = (if orderIndex > - 1
                   then set_sceneOrder ((ed_sceneOrder st2)[nat orderIndex := newSceneId]) st2
                   else st2);
            st4 = (if ed_firstScene st3 = oldSceneId then set_firstScene newSceneId st3 else st3);
            st5 = (if currentScene st4 = oldSceneId then st4\<lparr>currentScene := newSceneId\<rparr>
                   else st4)
        in (True, selectScene (select_value (Object_keys (ed_scenes st5)) newSceneId) st5))"

section \<open>Scene order\<close>

definition reorderScenes :: "string list \<Rightarrow> editor \<Rightarrow> editor" where
  \<comment> \<open>the lookup \<^verbatim>\<open>tourConfig.scenes[sceneId]\<close> is that of an own property: for an entry of
      \<open>newOrder\<close> that names an inherited member (\<open>prototype_member\<close>) and no scene the code
      stores that member in the map, which this model of the map cannot hold; the
      statements about \<^verbatim>\<open>reorderScenes\<close> leave such entries out\<close>
  "reorderScenes newOrder st =
     (let st1 = set_sceneOrder newOrder st;
          reorderedScenes =
            fold (\<lambda>sceneId acc.
                    case obj_get (ed_scenes st1) sceneId of
                      Some sc \<Rightarrow> obj_set sceneId sc acc
                    | None \<Rightarrow> acc) newOrder []
      in set_scenes reorderedScenes st1)"

definition swap :: "nat \<Rightarrow> nat \<Rightarrow> 'a list \<Rightarrow> 'a list" where
  "swap i j xs = xs[i := xs ! j, j := xs ! i]"

definition moveScene :: "string \<Rightarrow> string \<Rightarrow> editor \<Rightarrow> editor" where
  "moveScene sceneId direction st =
     (let currentIndex = indexOf (ed_sceneOrder st) sceneId in
      if currentIndex = - 1 then st
      else
        let newOrder = ed_sceneOrder st;
            newOrder' =
              (if direction = ''up'' \<and> currentIndex > 0
               then swap (nat currentIndex - 1) (nat currentIndex) newOrder
               else if direction = ''down'' \<and> currentIndex < int (length newOrder) - 1
               then swap (nat currentIndex) (nat currentIndex + 1) newOrder
               else newOrder)
        in reorderScenes newOrder' st)"

definition handleDrop :: "string \<Rightarrow> string \<Rightarrow> editor \<Rightarrow> editor" where
  \<comment> \<open>\<open>draggedSceneId\<close> is the scene picked up, \<open>targetSceneId\<close> the list item it is
      dropped on; the empty string stands for \<^verbatim>\<open>null\<close>\<close>
  "handleDrop draggedSceneId targetSceneId st =
     (if draggedSceneId \<noteq> [] \<and> targetSceneId \<noteq> [] \<and> draggedSceneId \<noteq> targetSceneId then
        let newOrder = ed_sceneOrder st;
            draggedIndex = indexOf newOrder draggedSceneId;
            targetIndex = indexOf newOrder targetSceneId
        in if draggedIndex > - 1 \<and> targetIndex > - 1
           then reorderScenes
                  (splice_insert (nat targetIndex) draggedSceneId
                     (splice_remove (nat draggedIndex) newOrder)) st
           else st
      else st)"


section \<open>Hotspot operations\<close>

datatype error = TypeError

text \<open>
  The fields of the hotspot dialog. The two position fields hold what \<^verbatim>\<open>parseFloat\<close>
  reads from them.
\<close>

record hotspot_form =
  hotspotText :: string
  hotspotId :: string
  hotspotTarget :: string
  hotspotPitch :: real
  hotspotYaw :: real

definition js_or :: "real \<Rightarrow> real \<Rightarrow> real" where
  \<comment> \<open>\<^verbatim>\<open>x || d\<close> on numbers\<close>
  "js_or x d = (if x = 0 then d else x)"

definition toFixed1 :: "real \<Rightarrow> real" where
  \<comment> \<open>the number that \<^verbatim>\<open>x.toFixed(1)\<close> prints: one decimal, halves away from zero\<close>
  "toFixed1 x = sgn x * of_int \<lfloor>\<bar>x\<bar> * 10 + 1 / 2\<rfloor> / 10"

definition target_options :: "editor \<Rightarrow> string list" where
  \<comment> \<open>the scenes offered by the target drop-down of the dialog\<close>
  "target_options st = filter (\<lambda>sceneId. sceneId \<noteq> currentScene st) (Object_keys (ed_scenes st))"

definition showAddHotspotModal :: "real \<Rightarrow> real \<Rightarrow> editor \<Rightarrow> editor \<times> hotspot_form" where
  \<comment> \<open>called by the click handler of the panorama, and only while a scene is selected;
      the id field gets the suggestion for the selected scene\<close>
  "showAddHotspotModal pitch' yaw' st =
     (st\<lparr>pendingHotspot :=
           Some \<lparr>p_pitch = pitch', p_yaw = yaw', isEditing = False, editIndex = None\<rparr>\<rparr>,
      \<lparr>hotspotText = [],
       hotspotId = generateSceneBasedHotspotId (currentScene st) (ed_scenes st),
       hotspotTarget = [],
       hotspotPitch = toFixed1 pitch', hotspotYaw = toFixed1 yaw'\<rparr>)"

definition showEditHotspotModal :: "hotspot \<Rightarrow> nat \<Rightarrow> editor \<Rightarrow> editor \<times> hotspot_form" where
  "showEditHotspotModal h index st =
     (st\<lparr>pendingHotspot :=
           Some \<lparr>p_pitch = hs_pitch h, p_yaw = hs_yaw h, isEditing = True,
                 editIndex = Some index\<rparr>\<rparr>,
      \<lparr>hotspotText = hs_text h,
       hotspotId = (case hs_id h of None \<Rightarrow> [] | Some s \<Rightarrow> s),
       hotspotTarget = select_value (target_options st) (hs_sceneId h),
       hotspotPitch = js_or (hs_pitch h) 0, hotspotYaw = js_or (hs_yaw h) 0\<rparr>)"

definition editHotspot :: "nat \<Rightarrow> editor \<Rightarrow> error + (editor \<times> hotspot_form option)" where
  \<comment> \<open>\<^verbatim>\<open>window.editHotspot\<close>; the form is \<open>None\<close> when no dialog opens\<close>
  "editHotspot index st =
     (if currentScene st = [] then Inr (st, None)
      else case obj_get (ed_scenes st) (currentScene st) of
             None \<Rightarrow> Inl TypeError
           | Some sc \<Rightarrow>
               if index < length (hotSpots sc)
               then (let (st', form) = showEditHotspotModal (hotSpots sc ! index) index st
                     in Inr (st', Some form))
               else Inr (st, None))"

definition word_char :: "char \<Rightarrow> bool" where
  \<comment> \<open>the character class \<^verbatim>\<open>\w\<close>\<close>
  "word_char c \<longleftrightarrow>
     c \<in> set ''abcdefghijklmnopqrstuvwxyzABCDEFGHIJKLMNOPQRSTUVWXYZ0123456789_''"

definition suggested_pattern :: "string \<Rightarrow> bool" where
  \<comment> \<open>\<^verbatim>\<open>/^hs_\w+_\d{3}$/.test(s)\<close>: the underscore and the three digits are the last
      four characters, whatever lies between them and the prefix is \<^verbatim>\<open>\w+\<close>\<close>
  "suggested_pattern s \<longleftrightarrow>
     8 \<le> length s \<and> take 3 s = ''hs_'' \<and>
     list_all word_char (take (length s - 7) (drop 3 s)) \<and>
     s ! (length s - 4) = CHR ''_'' \<and> list_all is_digit (drop (length s - 3) s)"

definition hotspotTarget_change :: "string \<Rightarrow> editor \<Rightarrow> hotspot_form \<Rightarrow> hotspot_form" where
  \<comment> \<open>the \<^verbatim>\<open>change\<close> listener of the target drop-down\<close>
  "hotspotTarget_change targetScene st form =
     (let form1 = form\<lparr>hotspotTarget := targetScene\<rparr>;
          form2 = (if targetScene \<noteq> [] \<and> trim (hotspotText form1) = []
                   then form1\<lparr>hotspotText := targetScene\<rparr> else form1)
      in if targetScene \<noteq> [] then
           (let currentId = trim (hotspotId form2)
            in if currentId = [] \<or> suggested_pattern currentId
               then form2\<lparr>hotspotId := generateSceneBasedHotspotId targetScene (ed_scenes st)\<rparr>
               else form2)
         else form2)"

definition set_hotSpots :: "string \<Rightarrow> hotspot list \<Rightarrow> editor \<Rightarrow> editor" where
  \<comment> \<open>mutation of the \<^verbatim>\<open>hotSpots\<close> array of an existing scene\<close>
  "set_hotSpots sceneId hs st =
     set_scenes (obj_modify sceneId (\<lambda>sc. sc\<lparr>hotSpots := hs\<rparr>) (ed_scenes st)) st"

definition confirmAddHotspot :: "hotspot_form \<Rightarrow> editor \<Rightarrow> error + editor" where
  "confirmAddHotspot form st =
     (case pendingHotspot st of
        None \<Rightarrow> Inr st
      | Some pend \<Rightarrow>
          if currentScene st = [] then Inr st
          else
            let text = trim (hotspotText form);
                hotspotId' = trim (hotspotId form);
                targetScene = hotspotTarget form
            in if targetScene = [] then Inr st
               else
                 let excludeIndex =
                       (if isEditing pend
                        then (case editIndex pend of None \<Rightarrow> - 1 | Some i \<Rightarrow> int i)
                        else - 1)
                 in if \<not> isValid (validateHotspotId hotspotId' (currentScene st) excludeIndex
                                     (ed_scenes st))
                    then Inr st
                    else
                      let text' = (if text = [] then targetScene else text);
                          (hotspotId'', st1) =
                            (if hotspotId' = []
                             then (''hs_'' @ currentScene st @ ''_'' @
                                     Number_toString (hotspotCounter st),
                                   st\<lparr>hotspotCounter := double_round (hotspotCounter st + 1)\<rparr>)
                             else (hotspotId', st));
                          targetSceneConfig = obj_get (ed_scenes st1) targetScene;
                          hotspotData =
                            \<lparr>hs_pitch = hotspotPitch form, hs_yaw = hotspotYaw form,
                             hs_type = ''scene'', hs_text = text', hs_sceneId = targetScene,
                             hs_id = Some hotspotId'',
                             targetPitch = (case targetSceneConfig of
                                              Some sc \<Rightarrow> js_or (pitch sc) 0 | None \<Rightarrow> 0),
                             targetYaw = (case targetSceneConfig of
                                            Some sc \<Rightarrow> js_or (yaw sc) 0 | None \<Rightarrow> 0),
                             targetHfov = (case targetSceneConfig of
                                             Some sc \<Rightarrow> js_or (hfov sc) 100 | None \<Rightarrow> 100)\<rparr>
                      in case obj_get (ed_scenes st1) (currentScene st1) of
                           None \<Rightarrow> Inl TypeError
                         | Some sc \<Rightarrow>
                             if isEditing pend then
                               (case editIndex pend of
                                  None \<Rightarrow> Inl TypeError
                                | Some i \<Rightarrow>
                                    if i < length (hotSpots sc)
                                    then Inr ((set_hotSpots (currentScene st1)
                                                 ((hotSpots sc)[i := hotspotData]) st1)
                                               \<lparr>pendingHotspot := None\<rparr>)
                                    else Inl TypeError)
                             else Inr ((set_hotSpots (currentScene st1)
                                          (hotSpots sc @ [hotspotData]) st1)
                                        \<lparr>pendingHotspot := None\<rparr>))"

definition deleteHotspot :: "int \<Rightarrow> editor \<Rightarrow> error + editor" where
  \<comment> \<open>\<^verbatim>\<open>window.deleteHotspot\<close>\<close>
  "deleteHotspot index st =
     (if currentScene st = [] then Inr st
      else case obj_get (ed_scenes st) (currentScene st) of
             None \<Rightarrow> Inl TypeError
           | Some sc \<Rightarrow>
               if index \<ge> 0 \<and> index < int (length (hotSpots sc))
               then Inr (set_hotSpots (currentScene st)
                           (splice_remove (nat index) (hotSpots sc)) st)
               else Inr st)"

definition handleHotspotDrop :: "nat option \<Rightarrow> nat \<Rightarrow> editor \<Rightarrow> error + editor" where
  \<comment> \<open>\<open>draggedHotspotIndex\<close> is the global set when the drag starts. An index outside the
      array would insert \<^verbatim>\<open>undefined\<close>, on which the list refresh that follows throws\<close>
  "handleHotspotDrop draggedHotspotIndex targetIndex st =
     (case draggedHotspotIndex of
        None \<Rightarrow> Inr st
      | Some d \<Rightarrow>
          if targetIndex \<noteq> d then
            (case obj_get (ed_scenes st) (currentScene st) of
               None \<Rightarrow> Inl TypeError
             | Some sc \<Rightarrow>
                 if d < length (hotSpots sc)
                 then Inr (set_hotSpots (currentScene st)
                             (splice_insert targetIndex (hotSpots sc ! d)
                                (splice_remove d (hotSpots sc))) st)
                 else Inl TypeError)
          else Inr st)"

section \<open>Import\<close>

definition lacks_id :: "hotspot \<Rightarrow> bool" where
  \<comment> \<open>the test of \<^verbatim>\<open>fixMissingHotspotId\<close>\<close>
  "lacks_id h = (case hs_id h of None \<Rightarrow> True | Some s \<Rightarrow> s = [] \<or> trim s = [])"

definition fixMissingHotspotId :: "hotspot \<Rightarrow> string \<Rightarrow> int \<Rightarrow> hotspot \<times> int" where
  \<comment> \<open>returns the hotspot and the new value of \<^verbatim>\<open>hotspotCounter\<close>\<close>
  "fixMissingHotspotId h sceneId counter =
     (if lacks_id h
      then (h\<lparr>hs_id := Some (''hs_'' @ sceneId @ ''_'' @ Number_toString counter)\<rparr>,
            double_round (counter + 1))
      else (h, counter))"

definition id_counter :: "hotspot \<Rightarrow> int option" where
  \<comment> \<open>the number that the first pass of \<^verbatim>\<open>ensureHotspotIds\<close> reads from a hotspot\<close>
  "id_counter h =
     (case hs_id h of
        None \<Rightarrow> None
      | Some s \<Rightarrow>
          if s \<noteq> [] \<and> startsWith s ''hs_'' then
            (let parts = split (CHR ''_'') s
             in if length parts \<ge> 3 then parseInt (last parts) else None)
          else None)"

definition max_counter :: "scene obj \<Rightarrow> int" where
  \<comment> \<open>\<^verbatim>\<open>maxCounter\<close> after the first pass\<close>
  "max_counter m =
     fold (\<lambda>(sceneId, sc) mx.
             fold (\<lambda>h mx'. case id_counter h of None \<Rightarrow> mx' | Some c \<Rightarrow> max mx' c)
                  (hotSpots sc) mx) m 0"

fun fix_hotspots :: "string \<Rightarrow> hotspot list \<Rightarrow> int \<Rightarrow> hotspot list \<times> int" where
  "fix_hotspots sceneId [] counter = ([], counter)"
| "fix_hotspots sceneId (h # hs) counter =
     (let (h', c1) = fixMissingHotspotId h sceneId counter;
          (hs', c2) = fix_hotspots sceneId hs c1
      in (h' # hs', c2))"

fun fix_scenes :: "scene obj \<Rightarrow> int \<Rightarrow> scene obj \<times> int" where
  "fix_scenes [] counter = ([], counter)"
| "fix_scenes ((sceneId, sc) # m) counter =
     (let (hs', c1) = fix_hotspots sceneId (hotSpots sc) counter;
          (m', c2) = fix_scenes m c1
      in ((sceneId, sc\<lparr>hotSpots := hs'\<rparr>) # m', c2))"

definition ensureHotspotIds :: "editor \<Rightarrow> editor" where
  "ensureHotspotIds st =
     (let maxCounter = max_counter (ed_scenes st);
          st1 = st\<lparr>hotspotCounter := double_round (maxCounter + 1)\<rparr>;
          (m', c) = fix_scenes (ed_scenes st1) (hotspotCounter st1)
      in (set_scenes m' st1)\<lparr>hotspotCounter := c\<rparr>)"

text \<open>
  A parsed import file. \<open>i_sceneOrder\<close> is \<open>None\<close> when the file has no \<^verbatim>\<open>sceneOrder\<close>.
\<close>

record imported_defaults =
  i_firstScene :: string
  i_sceneOrder :: "string list option"
  i_sceneFadeDuration :: int
  i_autoLoad :: bool

record imported_config =
  i_default :: imported_defaults
  i_scenes :: "scene obj"

definition importConfiguration :: "imported_config \<Rightarrow> editor \<Rightarrow> editor" where
  \<comment> \<open>the body of the \<^verbatim>\<open>onload\<close> handler after \<^verbatim>\<open>JSON.parse\<close> has succeeded\<close>
  "importConfiguration imported st =
     (let st1 = st\<lparr>config :=
                  \<lparr>tc_default =
                     \<lparr>firstScene = i_firstScene (i_default imported),
                      sceneOrder =
                        (case i_sceneOrder (i_default imported) of
                           None \<Rightarrow> Object_keys (i_scenes imported)
                         | Some ks \<Rightarrow>
                             if length ks = 0 then Object_keys (i_scenes imported) else ks),
                      sceneFadeDuration = i_sceneFadeDuration (i_default imported),
                      autoLoad = i_autoLoad (i_default imported)\<rparr>,
                   scenes = i_scenes imported\<rparr>\<rparr>;
          st2 = ensureHotspotIds st1;
          st3 = reorderScenes (ed_sceneOrder st2) st2;
          v = (if ed_firstScene st3 \<noteq> [] \<and> has_member (ed_scenes st3) (ed_firstScene st3)
               then ed_firstScene st3
               else first_key (ed_scenes st3))
      in selectScene (select_value (Object_keys (ed_scenes st3)) v) st3)"

section \<open>Sequences of operations\<close>

datatype op =
    AddScene string string int int
  | SelectScene string
  | DeleteScene bool bool
  | RenameScene string string bool
  | CaptureView real real real
  | AddHotspot real real hotspot_form
  | EditHotspot nat hotspot_form
  | DeleteHotspot int
  | ReorderHotspots nat nat
  | MoveScene string string
  | DropScene string string
  | ReorderScenes "string list"

fun step :: "op \<Rightarrow> editor \<Rightarrow> error + editor" where
  "step (AddScene idField pathField ml cr) st = Inr (addNewScene idField pathField ml cr st)"
| "step (SelectScene v) st = Inr (selectScene v st)"
| "step (DeleteScene confirmed viewer) st = Inr (deleteCurrentScene confirmed viewer st)"
| "step (RenameScene old new confirmed) st = Inr (snd (renameScene old new confirmed st))"
| "step (CaptureView p y h) st = Inr (fst (updateSceneWithCapturedView p y h st))"
| "step (AddHotspot p y form) st =
     (if currentScene st = [] then Inr st
      else confirmAddHotspot form (fst (showAddHotspotModal p y st)))"
| "step (EditHotspot index form) st =
     (case editHotspot index st of
        Inl e \<Rightarrow> Inl e
      | Inr (st', None) \<Rightarrow> Inr st'
      | Inr (st', Some _) \<Rightarrow> confirmAddHotspot form st')"
| "step (DeleteHotspot index) st = deleteHotspot index st"
| "step (ReorderHotspots d t) st = handleHotspotDrop (Some d) t st"
| "step (MoveScene sceneId direction) st = Inr (moveScene sceneId direction st)"
| "step (DropScene dragged target) st = Inr (handleDrop dragged target st)"
| "step (ReorderScenes newOrder) st = Inr (reorderScenes newOrder st)"

fun run :: "op list \<Rightarrow> editor \<Rightarrow> error + editor" where
  "run [] st = Inr st"
| "run (x # xs) st = (case step x st of Inl e \<Rightarrow> Inl e | Inr st' \<Rightarrow> run xs st')"

fun trace :: "op list \<Rightarrow> editor \<Rightarrow> editor list" where
  \<comment> \<open>the states after zero, one, two, ... operations, up to the first exception\<close>
  "trace [] st = [st]"
| "trace (x # xs) st = st # (case step x st of Inl e \<Rightarrow> [] | Inr st' \<Rightarrow> trace xs st')"

section \<open>The invariants of the document\<close>

definition all_hotspot_ids :: "scene obj \<Rightarrow> string option list" where
  "all_hotspot_ids m = concat (map (\<lambda>sc. map hs_id (hotSpots sc)) (Object_values m))"

definition hotspot_ids_unique :: "editor \<Rightarrow> bool" where
  "hotspot_ids_unique st \<longleftrightarrow> distinct (all_hotspot_ids (ed_scenes st))"

definition targets_valid :: "editor \<Rightarrow> bool" where
  "targets_valid st \<longleftrightarrow>
     list_all (\<lambda>(owner, sc).
        list_all (\<lambda>h. hs_sceneId h \<in> set (Object_keys (ed_scenes st)) \<and> hs_sceneId h \<noteq> owner)
                 (hotSpots sc)) (ed_scenes st)"

definition sceneOrder_permutation :: "editor \<Rightarrow> bool" where
  "sceneOrder_permutation st \<longleftrightarrow>
     mset (ed_sceneOrder st) = mset (Object_keys (ed_scenes st))"

definition firstScene_valid :: "editor \<Rightarrow> bool" where
  "firstScene_valid st \<longleftrightarrow>
     ed_firstScene st = [] \<or> ed_firstScene st \<in> set (Object_keys (ed_scenes st))"

definition invariants :: "editor \<Rightarrow> bool" where
  "invariants st \<longleftrightarrow>
     hotspot_ids_unique st \<and> targets_valid st \<and> sceneOrder_permutation st \<and> firstScene_valid st"


section \<open>Notions used in the statements\<close>

definition retarget :: "string \<Rightarrow> updates \<Rightarrow> hotspot \<Rightarrow> hotspot" where
  "retarget t u h = (if hs_sceneId h = t then apply_updates u h else h)"

definition count_targeting :: "string \<Rightarrow> scene obj \<Rightarrow> nat" where
  \<comment> \<open>how many hotspots of the document lead to scene \<open>t\<close>\<close>
  "count_targeting t m =
     sum_list (map (\<lambda>sc. length (filter (\<lambda>h. hs_sceneId h = t) (hotSpots sc))) (Object_values m))"

definition owned_hotspots :: "scene obj \<Rightarrow> (string \<times> hotspot) list" where
  \<comment> \<open>every hotspot of the document with the id of the scene that owns it\<close>
  "owned_hotspots m = concat (map (\<lambda>(owner, sc). map (Pair owner) (hotSpots sc)) m)"

definition strip_targets :: "string \<Rightarrow> scene \<Rightarrow> scene" where
  "strip_targets X sc = sc\<lparr>hotSpots := filter (\<lambda>h. hs_sceneId h \<noteq> X) (hotSpots sc)\<rparr>"

definition rename_key :: "string \<Rightarrow> string \<Rightarrow> string \<Rightarrow> string" where
  "rename_key old new k = (if k = old then new else k)"

definition repoint :: "string \<Rightarrow> string \<Rightarrow> hotspot \<Rightarrow> hotspot" where
  "repoint old new h = (if hs_sceneId h = old then h\<lparr>hs_sceneId := new\<rparr> else h)"

text \<open>
  The document is well formed when the scene map has no key twice (as every object) and
  the four invariants hold. \<open>doc_ok\<close> says the same of the three parts of the document.
\<close>

definition document_ok :: "editor \<Rightarrow> bool" where
  "document_ok st \<longleftrightarrow> distinct (Object_keys (ed_scenes st)) \<and> invariants st"

definition doc_ok :: "scene obj \<Rightarrow> string list \<Rightarrow> string \<Rightarrow> bool" where
  "doc_ok m order first \<longleftrightarrow>
     distinct (Object_keys m) \<and>
     distinct (map (hs_id \<circ> snd) (owned_hotspots m)) \<and>
     (\<forall>(owner, h) \<in> set (owned_hotspots m). hs_sceneId h \<in> set (Object_keys m) \<and> hs_sceneId h \<noteq> owner) \<and>
     mset order = mset (Object_keys m) \<and>
     (first = [] \<or> first \<in> set (Object_keys m))"

text \<open>
  What the user interface lets through: a scene is renamed only when it exists, the target
  of a hotspot is an entry of the drop-down (or nothing), and the scene order list is only
  ever permuted. An operation on a hotspot is admissible here when its id field is filled
  in.
\<close>

fun admissible :: "op \<Rightarrow> editor \<Rightarrow> bool" where
  "admissible (RenameScene old new confirmed) st \<longleftrightarrow> old \<in> set (Object_keys (ed_scenes st))"
| "admissible (AddHotspot p y form) st \<longleftrightarrow>
     trim (hotspotId form) \<noteq> [] \<and>
     (hotspotTarget form = [] \<or> hotspotTarget form \<in> set (target_options st))"
| "admissible (EditHotspot index form) st \<longleftrightarrow>
     trim (hotspotId form) \<noteq> [] \<and>
     (hotspotTarget form = [] \<or> hotspotTarget form \<in> set (target_options st))"
| "admissible (ReorderScenes newOrder) st \<longleftrightarrow>
     mset newOrder = mset (Object_keys (ed_scenes st))"
| "admissible _ st \<longleftrightarrow> True"

fun admissible_run :: "op list \<Rightarrow> editor \<Rightarrow> bool" where
  "admissible_run [] st \<longleftrightarrow> True"
| "admissible_run (x # xs) st \<longleftrightarrow>
     admissible x st \<and> (case step x st of Inl e \<Rightarrow> True | Inr st' \<Rightarrow> admissible_run xs st')"

text \<open>
  The two passes of \<^verbatim>\<open>ensureHotspotIds\<close> on the list of all hotspots of the document:
  \<open>highest_counter\<close> is the running maximum of the first pass, \<open>assign_ids\<close> is the second
  pass, and \<open>missing_before ohs i\<close> counts the hotspots without an id before position \<open>i\<close>.
\<close>

fun assign_ids :: "(string \<times> hotspot) list \<Rightarrow> int \<Rightarrow> (string \<times> hotspot) list" where
  "assign_ids [] c = []"
| "assign_ids ((owner, h) # r) c =
     (if lacks_id h
      then (owner, h\<lparr>hs_id := Some (''hs_'' @ owner @ ''_'' @ Number_toString c)\<rparr>) # assign_ids r (c + 1)
      else (owner, h) # assign_ids r c)"

definition missing_before :: "(string \<times> hotspot) list \<Rightarrow> nat \<Rightarrow> int" where
  "missing_before ohs i = int (length (filter (\<lambda>(owner, h). lacks_id h) (take i ohs)))"

definition highest_counter :: "(string \<times> hotspot) list \<Rightarrow> int \<Rightarrow> int" where
  "highest_counter ohs mx =
     fold (\<lambda>(owner, h) mx'. case id_counter h of None \<Rightarrow> mx' | Some c \<Rightarrow> max mx' c) ohs mx"

section \<open>Example documents\<close>

definition link :: "string \<Rightarrow> string \<Rightarrow> hotspot" where
  "link hid target =
     \<lparr>hs_pitch = 0, hs_yaw = 0, hs_type = ''scene'', hs_text = target, hs_sceneId = target,
      hs_id = Some hid, targetPitch = 0, targetYaw = 0, targetHfov = 100\<rparr>"

definition plain_scene :: "hotspot list \<Rightarrow> scene" where
  "plain_scene hs = (new_scene ''tiles/'' 5 8192)\<lparr>hotSpots := hs\<rparr>"

definition editor_of :: "scene obj \<Rightarrow> string list \<Rightarrow> string \<Rightarrow> string \<Rightarrow> editor" where
  "editor_of m order first cur =
     \<lparr>config = \<lparr>tc_default = \<lparr>firstScene = first, sceneOrder = order,
                                sceneFadeDuration = 1000, autoLoad = True\<rparr>,
                scenes = m\<rparr>,
      currentScene = cur, pendingHotspot = None, hotspotCounter = 0\<rparr>"

definition lobby_editor :: editor where
  \<comment> \<open>the editor after a first scene has been added\<close>
  "lobby_editor = addNewScene ''lobby'' ''tiles/lobby/'' 5 8192 initial_editor"

definition tour_ABC :: editor where
  \<comment> \<open>three scenes, two links into the middle one, which is selected and the first scene\<close>
  "tour_ABC =
     editor_of [(''A'', plain_scene [link ''hs_B_001'' ''B'']), (''B'', plain_scene []),
                (''C'', plain_scene [link ''hs_B_002'' ''B''])]
       [''A'', ''B'', ''C''] ''B'' ''B''"

definition tour_ab :: editor where
  "tour_ab =
     editor_of [(''a'', plain_scene [(link ''hs_b_001'' ''b'')\<lparr>hs_text := ''Go to b''\<rparr>]),
                (''b'', plain_scene [])]
       [''a'', ''b''] ''a'' ''b''"

definition door_form :: "string \<Rightarrow> string \<Rightarrow> hotspot_form" where
  "door_form hid target =
     \<lparr>hotspotText = [], hotspotId = hid, hotspotTarget = target, hotspotPitch = 0, hotspotYaw = 0\<rparr>"

definition two_scenes :: "op list" where
  "two_scenes = [AddScene ''A'' ''tiles/A/'' 5 8192, AddScene ''B'' ''tiles/B/'' 5 8192,
                 SelectScene ''A'']"

definition editor_AB :: editor where
  "editor_AB =
     \<lparr>config = \<lparr>tc_default = \<lparr>firstScene = ''A'', sceneOrder = [''A'', ''B''],
                                sceneFadeDuration = 1000, autoLoad = True\<rparr>,
                scenes = [(''A'', new_scene ''tiles/A/'' 5 8192),
                          (''B'', new_scene ''tiles/B/'' 5 8192)]\<rparr>,
      currentScene = ''A'', pendingHotspot = None, hotspotCounter = 0\<rparr>"

definition editor_RB :: editor where
  \<comment> \<open>the editor after the scenes \<open>room-1\<close> and \<open>B\<close> have been added and \<open>room-1\<close>
      has been selected\<close>
  "editor_RB =
     \<lparr>config = \<lparr>tc_default = \<lparr>firstScene = ''room-1'', sceneOrder = [''room-1'', ''B''],
                                sceneFadeDuration = 1000, autoLoad = True\<rparr>,
                scenes = [(''room-1'', new_scene ''tiles/R/'' 5 8192),
                          (''B'', new_scene ''tiles/B/'' 5 8192)]\<rparr>,
      currentScene = ''room-1'', pendingHotspot = None, hotspotCounter = 0\<rparr>"

definition spaced_scenes :: "op list" where
  "spaced_scenes = [AddScene ''my scene'' ''tiles/S/'' 5 8192, AddScene ''B'' ''tiles/B/'' 5 8192,
                    SelectScene ''my scene'']"

definition editor_SB :: editor where
  "editor_SB =
     \<lparr>config = \<lparr>tc_default = \<lparr>firstScene = ''my scene'', sceneOrder = [''my scene'', ''B''],
                                sceneFadeDuration = 1000, autoLoad = True\<rparr>,
                scenes = [(''my scene'', new_scene ''tiles/S/'' 5 8192),
                          (''B'', new_scene ''tiles/B/'' 5 8192)]\<rparr>,
      currentScene = ''my scene'', pendingHotspot = None, hotspotCounter = 0\<rparr>"

definition stored_link :: "string \<Rightarrow> hotspot" where
  "stored_link hid =
     \<lparr>hs_pitch = 0, hs_yaw = 0, hs_type = ''scene'', hs_text = ''B'', hs_sceneId = ''B'',
      hs_id = Some hid, targetPitch = 0, targetYaw = 0, targetHfov = 100\<rparr>"

definition tidy_ops :: "op list" where
  "tidy_ops = two_scenes @ [AddHotspot 0 0 (door_form ''door'' ''B''), ReorderScenes [''B'', ''A'']]"

definition suggested_form :: "real \<Rightarrow> real \<Rightarrow> string \<Rightarrow> editor \<Rightarrow> hotspot_form" where
  \<comment> \<open>the dialog after the user has picked a target and touched nothing else\<close>
  "suggested_form p y target st =
     hotspotTarget_change target (fst (showAddHotspotModal p y st))
       (snd (showAddHotspotModal p y st))"

text \<open>
  Imported files: a hotspot that carries no id, and three parsed documents.
\<close>

definition unnamed_link :: "string \<Rightarrow> hotspot" where
  "unnamed_link target = (link [] target)\<lparr>hs_id := None\<rparr>"

definition import_of :: "scene obj \<Rightarrow> string list option \<Rightarrow> string \<Rightarrow> imported_config" where
  "import_of m order first =
     \<lparr>i_default = \<lparr>i_firstScene = first, i_sceneOrder = order,
                    i_sceneFadeDuration = 1000, i_autoLoad = True\<rparr>,
      i_scenes = m\<rparr>"



definition numeric_import :: imported_config where
  "numeric_import =
     import_of [(''1'', plain_scene []), (''a'', plain_scene [])] (Some [''a'', ''1'']) ''a''"

definition overflow_import :: imported_config where
  "overflow_import =
     import_of [(''a'', plain_scene [link ''hs_a_9007199254740992'' ''b'', unnamed_link ''b'',
                                    unnamed_link ''b'']),
                (''b'', plain_scene [])] None ''a''"


section \<open>Facts about numbers\<close>

lemma ulp_small: "a < 2 ^ 53 \<Longrightarrow> ulp a = 1"
  by (subst ulp.simps) simp

lemma ulp_2_53: "ulp (2 ^ 53) = 2"
proof -
  have "ulp (2 ^ 53) = 2 * ulp (2 ^ 53 div 2)" by (subst ulp.simps) simp
  also have "(2::nat) ^ 53 div 2 = 2 ^ 52" by simp
  also have "ulp (2 ^ 52) = 1" by (rule ulp_small) simp
  finally show ?thesis by simp
qed

lemma double_round_exact:
  assumes "\<bar>x\<bar> \<le> 2 ^ 53"
  shows "double_round x = x"
proof (cases "nat \<bar>x\<bar> < 2 ^ 53")
  case True
  then have "double_round x = sgn x * int (nat \<bar>x\<bar>)"
    by (simp add: double_round_def Let_def ulp_small)
  then show ?thesis by (simp add: mult_sgn_abs)
next
  case False
  moreover have "nat \<bar>x\<bar> \<le> 2 ^ 53" using assms by (simp add: nat_le_iff)
  ultimately have a: "nat \<bar>x\<bar> = 2 ^ 53" by linarith
  have "double_round x = sgn x * int (2 ^ 53)"
    unfolding double_round_def Let_def a ulp_2_53 by simp
  moreover have "\<bar>x\<bar> = int (2 ^ 53)" using a by (simp add: nat_eq_iff)
  ultimately show ?thesis by (metis mult_sgn_abs)
qed

lemma double_round_stalls: "double_round (2 ^ 53 + 1) = 2 ^ 53"
proof -
  have "ulp (2 ^ 53 + 1) = 2 * ulp ((2 ^ 53 + 1) div 2)" by (subst ulp.simps) simp
  also have "((2::nat) ^ 53 + 1) div 2 = 2 ^ 52" by simp
  also have "ulp (2 ^ 52) = 1" by (rule ulp_small) simp
  finally have u: "ulp (2 ^ 53 + 1) = 2" by simp
  have n: "nat \<bar>2 ^ 53 + 1 :: int\<bar> = 2 ^ 53 + 1" by simp
  show ?thesis unfolding double_round_def Let_def n u by simp
qed

lemma double_round_tie_up: "double_round (2 ^ 53 + 3) = 2 ^ 53 + 4"
proof -
  have "ulp (2 ^ 53 + 3) = 2 * ulp ((2 ^ 53 + 3) div 2)" by (subst ulp.simps) simp
  also have "((2::nat) ^ 53 + 3) div 2 = 2 ^ 52 + 1" by simp
  also have "ulp (2 ^ 52 + 1) = 1" by (rule ulp_small) simp
  finally have u: "ulp (2 ^ 53 + 3) = 2" by simp
  have n: "nat \<bar>2 ^ 53 + 3 :: int\<bar> = 2 ^ 53 + 3" by simp
  show ?thesis unfolding double_round_def Let_def n u by simp
qed

section \<open>Facts about strings\<close>

lemma id_char_not_ws: "id_char c \<Longrightarrow> \<not> is_ws c"
  by (auto simp: id_char_def is_ws_def)

lemma trim_empty_iff: "trim s = [] \<longleftrightarrow> list_all is_ws s"
proof
  assume "trim s = []"
  then have a: "\<forall>x\<in>set (dropWhile is_ws s). is_ws x"
    by (simp add: trim_def dropWhile_eq_Nil_conv)
  show "list_all is_ws s"
  proof (cases "dropWhile is_ws s")
    case Nil
    then show ?thesis by (simp add: dropWhile_eq_Nil_conv list_all_iff)
  next
    case (Cons y ys)
    then have "\<not> is_ws y" using hd_dropWhile [of is_ws s] by auto
    with a Cons show ?thesis by simp
  qed
next
  assume "list_all is_ws s"
  then have "dropWhile is_ws s = []" by (induction s) auto
  then show "trim s = []" by (metis trim_def dropWhile.simps(1) rev.simps(1))
qed

lemma id_pattern_trim: "id_pattern s \<Longrightarrow> trim s \<noteq> []"
  by (cases s) (auto simp: id_pattern_def trim_empty_iff id_char_not_ws)

section \<open>Facts about arrays and the editor state\<close>

lemma indexOf_ge: "indexOf xs x \<ge> - 1"
  by (induction xs) (auto simp: Let_def)

lemma indexOf_absent_iff: "indexOf xs x = - 1 \<longleftrightarrow> x \<notin> set xs"
proof (induction xs)
  case Nil
  then show ?case by simp
next
  case (Cons y ys)
  have "indexOf ys x \<ge> - 1" by (rule indexOf_ge)
  then show ?case using Cons.IH by (auto simp: Let_def)
qed

lemma indexOf_Cons_other:
  "y \<noteq> x \<Longrightarrow> x \<in> set ys \<Longrightarrow> nat (indexOf (y # ys) x) = Suc (nat (indexOf ys x))"
  using indexOf_ge [of ys x] indexOf_absent_iff [of ys x] by (simp add: Let_def nat_add_distrib)

lemma splice_remove_indexOf:
  "x \<in> set xs \<Longrightarrow> splice_remove (nat (indexOf xs x)) xs = remove1 x xs"
proof (induction xs)
  case Nil
  then show ?case by simp
next
  case (Cons y ys)
  show ?case
  proof (cases "y = x")
    case True
    then show ?thesis by (simp add: splice_remove_def)
  next
    case False
    then have "x \<in> set ys" using Cons.prems by simp
    then show ?thesis
      using Cons.IH False indexOf_Cons_other [OF False] by (simp add: splice_remove_def)
  qed
qed

lemma remove_from_order:
  "(if indexOf xs x > - 1 then splice_remove (nat (indexOf xs x)) xs else xs) = remove1 x xs"
proof (cases "x \<in> set xs")
  case True
  then have "indexOf xs x > - 1" using indexOf_ge [of xs x] indexOf_absent_iff [of xs x] by linarith
  then show ?thesis using True by (simp add: splice_remove_indexOf)
next
  case False
  then have "indexOf xs x = - 1" by (simp add: indexOf_absent_iff)
  then show ?thesis using False by (simp add: remove1_idem)
qed

lemma splice_remove_present:
  "- 1 < indexOf xs x \<Longrightarrow> splice_remove (nat (indexOf xs x)) xs = remove1 x xs"
  using remove_from_order [of xs x] by simp

lemma remove1_absent:
  "\<not> - 1 < indexOf xs x \<Longrightarrow> remove1 x xs = xs"
  using remove_from_order [of xs x] by simp

lemma ed_set_simps [simp]:
  "ed_scenes (set_scenes m st) = m"
  "ed_sceneOrder (set_scenes m st) = ed_sceneOrder st"
  "ed_firstScene (set_scenes m st) = ed_firstScene st"
  "currentScene (set_scenes m st) = currentScene st"
  "hotspotCounter (set_scenes m st) = hotspotCounter st"
  "pendingHotspot (set_scenes m st) = pendingHotspot st"
  "ed_scenes (set_sceneOrder ks st) = ed_scenes st"
  "ed_sceneOrder (set_sceneOrder ks st) = ks"
  "ed_firstScene (set_sceneOrder ks st) = ed_firstScene st"
  "currentScene (set_sceneOrder ks st) = currentScene st"
  "hotspotCounter (set_sceneOrder ks st) = hotspotCounter st"
  "pendingHotspot (set_sceneOrder ks st) = pendingHotspot st"
  "ed_scenes (set_firstScene k st) = ed_scenes st"
  "ed_sceneOrder (set_firstScene k st) = ed_sceneOrder st"
  "ed_firstScene (set_firstScene k st) = k"
  "currentScene (set_firstScene k st) = currentScene st"
  "hotspotCounter (set_firstScene k st) = hotspotCounter st"
  "pendingHotspot (set_firstScene k st) = pendingHotspot st"
  by (simp_all add: set_scenes_def set_sceneOrder_def set_firstScene_def)

section \<open>Facts about objects\<close>

lemma keys_obj_modify [simp]: "Object_keys (obj_modify k f m) = Object_keys m"
  by (induction m) (auto simp: Object_keys_def obj_modify_def)

lemma obj_get_obj_modify:
  "obj_get (obj_modify k f m) k' = (if k' = k then map_option f (obj_get m k) else obj_get m k')"
  by (induction m) (auto simp: obj_get_def obj_modify_def)

lemma mset_obj_insert_new [simp]: "mset (obj_insert_new k v m) = add_mset (k, v) (mset m)"
  by (induction m) auto

lemma set_obj_insert_new [simp]: "set (obj_insert_new k v m) = insert (k, v) (set m)"
  by (metis mset_obj_insert_new set_mset_add_mset_insert set_mset_mset)

lemma keys_obj_insert_new:
  "mset (Object_keys (obj_insert_new k v m)) = add_mset k (mset (Object_keys m))"
  by (induction m) (auto simp: Object_keys_def)

lemma obj_get_obj_insert_new:
  "k \<notin> set (Object_keys m) \<Longrightarrow>
   obj_get (obj_insert_new k v m) k' = (if k' = k then Some v else obj_get m k')"
  by (induction m) (auto simp: obj_get_def Object_keys_def)

lemma obj_get_None_iff: "obj_get m k = None \<longleftrightarrow> k \<notin> set (Object_keys m)"
  by (simp add: obj_get_def Object_keys_def map_of_eq_None_iff)

lemma obj_get_obj_set:
  "obj_get (obj_set k v m) k' = (if k' = k then Some v else obj_get m k')"
proof (cases "k \<in> set (Object_keys m)")
  case True
  then obtain w where "obj_get m k = Some w" using obj_get_None_iff [of m k] by auto
  then show ?thesis using True by (simp add: obj_set_def obj_get_obj_modify)
next
  case False
  then show ?thesis by (simp add: obj_set_def obj_get_obj_insert_new)
qed

lemma set_keys_obj_set [simp]:
  "set (Object_keys (obj_set k v m)) = insert k (set (Object_keys m))"
proof -
  have "set (Object_keys (obj_insert_new k v m)) = insert k (set (Object_keys m))"
    using keys_obj_insert_new [of k v m] by (metis set_mset_add_mset_insert set_mset_mset)
  then show ?thesis by (auto simp: obj_set_def)
qed

lemma distinct_keys_obj_set:
  "distinct (Object_keys m) \<Longrightarrow> distinct (Object_keys (obj_set k v m))"
proof (cases "k \<in> set (Object_keys m)")
  case True
  assume "distinct (Object_keys m)"
  then show ?thesis using True by (simp add: obj_set_def)
next
  case False
  assume d: "distinct (Object_keys m)"
  have "mset (Object_keys (obj_insert_new k v m)) = add_mset k (mset (Object_keys m))"
    by (rule keys_obj_insert_new)
  then have "distinct (Object_keys (obj_insert_new k v m)) = distinct (k # Object_keys m)"
    by (metis mset.simps(2) mset_eq_imp_distinct_iff)
  then show ?thesis using False d by (simp add: obj_set_def)
qed

lemma obj_insert_new_append:
  "\<not> is_array_index k \<Longrightarrow> obj_insert_new k v m = m @ [(k, v)]"
  by (induction m) (auto simp: key_precedes_def)

lemma obj_set_append:
  "\<not> is_array_index k \<Longrightarrow> k \<notin> set (Object_keys m) \<Longrightarrow> obj_set k v m = m @ [(k, v)]"
  by (simp add: obj_set_def obj_insert_new_append)

lemma obj_modify_same:
  "\<forall>v'. (k, v') \<in> set m \<longrightarrow> v' = v \<Longrightarrow> obj_modify k (\<lambda>_. v) m = m"
  by (induction m) (auto simp: obj_modify_def)

lemma obj_set_same:
  assumes d: "distinct (Object_keys m)" and mem: "(k, v) \<in> set m"
  shows "obj_set k v m = m"
proof -
  have "v' = v" if "(k, v') \<in> set m" for v'
    using d mem that by (metis Object_keys_def map_of_eq_Some_iff option.inject)
  then have "obj_modify k (\<lambda>_. v) m = m" by (simp add: obj_modify_same)
  moreover have "k \<in> set (Object_keys m)" using mem by (force simp: Object_keys_def)
  ultimately show ?thesis by (simp add: obj_set_def)
qed


lemma distinct_keys_mset_eq:
  assumes "distinct (Object_keys m)" "distinct (Object_keys m')"
    and "\<And>k. obj_get m' k = obj_get m k"
  shows "mset m' = mset m"
proof -
  have d: "distinct m" "distinct m'"
    using assms(1,2) by (auto simp: Object_keys_def distinct_map)
  have "set m' = set m"
  proof (rule set_eqI)
    fix e :: "string \<times> 'a"
    obtain k v where e: "e = (k, v)" by (cases e)
    have "e \<in> set m' \<longleftrightarrow> obj_get m' k = Some v"
      using assms(2) by (simp add: e obj_get_def Object_keys_def)
    also have "\<dots> \<longleftrightarrow> obj_get m k = Some v" by (simp add: assms(3))
    also have "\<dots> \<longleftrightarrow> e \<in> set m"
      using assms(1) by (simp add: e obj_get_def Object_keys_def)
    finally show "e \<in> set m' \<longleftrightarrow> e \<in> set m" .
  qed
  then show ?thesis using d by (simp add: set_eq_iff_mset_eq_distinct)
qed

lemmas string_defs = trim_def is_ws_def id_pattern_def id_char_def

lemmas example_defs =
  tour_ABC_def tour_ab_def editor_of_def plain_scene_def link_def new_scene_def initial_editor_def
  lobby_editor_def

lemmas object_defs =
  Object_keys_def Object_values_def obj_get_def obj_set_def obj_modify_def obj_delete_def
  has_member_def prototype_member_def select_value_def selectScene_def
  key_precedes_def is_array_index_def is_digit_def dec_value_def digit_val_def

lemmas editor_defs = set_scenes_def set_sceneOrder_def set_firstScene_def


section \<open>Facts about the example runs\<close>

lemma dec_digit: "n < 10 \<Longrightarrow> dec n = [digit_char n]"
  by (simp add: dec.simps)

lemmas hotspot_defs = dec_digit confirmAddHotspot_def showAddHotspotModal_def validateHotspotId_def
  set_hotSpots_def js_or_def Number_toString_def digit_char_def target_options_def
  double_round_exact

lemma run_append: "run (xs @ ys) st = (case run xs st of Inl e \<Rightarrow> Inl e | Inr st' \<Rightarrow> run ys st')"
  by (induction xs arbitrary: st) (auto split: sum.splits)

lemma run_two_scenes: "run two_scenes initial_editor = Inr editor_AB"
  by (simp add: two_scenes_def editor_AB_def initial_editor_def addNewScene_def selectScene_def
      Let_def string_defs editor_defs object_defs)

lemma run_spaced_scenes: "run spaced_scenes initial_editor = Inr editor_SB"
  by (simp add: spaced_scenes_def editor_SB_def initial_editor_def addNewScene_def selectScene_def
      Let_def string_defs editor_defs object_defs)

lemma step_explicit:
  "step (AddHotspot 0 0 (door_form ''hs_A_0'' ''B'')) editor_AB =
     Inr (set_hotSpots ''A'' [stored_link ''hs_A_0''] editor_AB)"
  by (simp add: door_form_def editor_AB_def hotspot_defs string_defs editor_defs object_defs
      new_scene_def stored_link_def Let_def)

lemma step_generated:
  "step (AddHotspot 0 0 (door_form [] ''B'')) (set_hotSpots ''A'' [stored_link ''hs_A_0''] editor_AB) =
     Inr ((set_hotSpots ''A'' [stored_link ''hs_A_0'', stored_link ''hs_A_0''] editor_AB)
            \<lparr>hotspotCounter := 1\<rparr>)"
  by (simp add: door_form_def editor_AB_def hotspot_defs string_defs editor_defs object_defs
      new_scene_def stored_link_def Let_def)

lemma step_generated_spaced:
  "step (AddHotspot 0 0 (door_form [] ''B'')) editor_SB =
     Inr ((set_hotSpots ''my scene'' [stored_link ''hs_my scene_0''] editor_SB)
            \<lparr>hotspotCounter := 1\<rparr>)"
  by (simp add: door_form_def editor_SB_def hotspot_defs string_defs editor_defs object_defs
      new_scene_def stored_link_def Let_def)

lemma step_door:
  "step (AddHotspot 0 0 (door_form ''door'' ''B'')) editor_AB =
     Inr (set_hotSpots ''A'' [stored_link ''door''] editor_AB)"
  by (simp add: door_form_def editor_AB_def hotspot_defs string_defs editor_defs object_defs
      new_scene_def stored_link_def Let_def)


section \<open>Renaming a scene to its own id\<close>

text \<open>
  Claim C9, as the code has it. \<^verbatim>\<open>renameScene(x, x)\<close> never changes the editor state,
  whatever \<open>x\<close> is and whatever the confirmation dialog would answer: the comparison of
  the two ids comes before the duplicate check and before any update. It comes after the
  test of the form of the new id, though: the call returns true exactly when \<open>x\<close> is a
  non-empty string over letters, digits, underscore and hyphen (\<open>id_pattern\<close>), and false
  for every other \<open>x\<close>, also when \<open>x\<close> names a scene of the document.
\<close>

theorem renameScene_identity:
  "renameScene x x confirmed st = (id_pattern x, st)"
  using id_pattern_trim [of x] by (auto simp: renameScene_def id_pattern_def)

theorem renameScene_identity_witness:
  "id_pattern ''lobby'' \<and> renameScene ''lobby'' ''lobby'' False lobby_editor = (True, lobby_editor)"
  using renameScene_identity [of "''lobby''" False lobby_editor]
  by (simp add: id_pattern_def id_char_def)

text \<open>
  The claim as stated fails: \<^verbatim>\<open>addNewScene\<close> accepts the id \<open>my scene\<close>, and renaming that
  scene to its own id returns false.
\<close>

theorem renameScene_identity_counterexample:
  "Object_keys (ed_scenes (addNewScene ''my scene'' ''tiles/'' 5 8192 initial_editor)) =
     [''my scene''] \<and>
   renameScene ''my scene'' ''my scene'' True
       (addNewScene ''my scene'' ''tiles/'' 5 8192 initial_editor) =
     (False, addNewScene ''my scene'' ''tiles/'' 5 8192 initial_editor)"
proof -
  have "Object_keys (ed_scenes (addNewScene ''my scene'' ''tiles/'' 5 8192 initial_editor)) =
      [''my scene'']"
    by (simp add: addNewScene_def Let_def string_defs editor_defs object_defs initial_editor_def)
  moreover have "renameScene ''my scene'' ''my scene'' True st = (False, st)" for st
    by (simp add: renameScene_def string_defs)
  ultimately show ?thesis by simp
qed

section \<open>Deleting a scene\<close>

lemma first_key_delete:
  "(case filter (\<lambda>k. k \<noteq> X) (Object_keys m) of [] \<Rightarrow> [] | k # _ \<Rightarrow> k) = first_key (obj_delete X m)"
  by (induction m) (auto simp: first_key_def Object_keys_def obj_delete_def)

lemma deleteCurrentScene_parts:
  assumes "currentScene st = X" "X \<noteq> []"
  shows "ed_scenes (deleteCurrentScene True viewer st) =
           map (\<lambda>(k, sc). (k, strip_targets X sc)) (obj_delete X (ed_scenes st))"
    and "ed_sceneOrder (deleteCurrentScene True viewer st) = remove1 X (ed_sceneOrder st)"
    and "ed_firstScene (deleteCurrentScene True viewer st) =
           (if ed_firstScene st = X then first_key (obj_delete X (ed_scenes st))
            else ed_firstScene st)"
    and "currentScene (deleteCurrentScene True viewer st) =
           (if viewer then first_key (obj_delete X (ed_scenes st)) else [])"
    and "hotspotCounter (deleteCurrentScene True viewer st) = hotspotCounter st"
  using assms
  by (simp_all add: deleteCurrentScene_def Let_def splice_remove_present remove1_absent
      first_key_delete strip_targets_def)



lemma owned_hotspots_strip:
  "owned_hotspots (map (\<lambda>(k, sc). (k, strip_targets X sc)) (obj_delete X m)) =
     filter (\<lambda>(owner, h). owner \<noteq> X \<and> hs_sceneId h \<noteq> X) (owned_hotspots m)"
  by (induction m) (auto simp: owned_hotspots_def obj_delete_def strip_targets_def filter_map comp_def)



section \<open>Capturing the view\<close>

lemma update_hotspots_eq:
  "update_hotspots t u hs n =
     (map (retarget t u) hs, n + length (filter (\<lambda>h. hs_sceneId h = t) hs))"
  by (induction hs arbitrary: n) (auto simp: retarget_def)

lemma update_scenes_eq:
  "update_scenes t u m n =
     (map (\<lambda>(k, sc). (k, sc\<lparr>hotSpots := map (retarget t u) (hotSpots sc)\<rparr>)) m,
      n + count_targeting t m)"
  by (induction m arbitrary: n)
     (auto simp: update_hotspots_eq count_targeting_def Object_values_def)

lemma count_targeting_obj_modify:
  "(\<And>sc. hotSpots (f sc) = hotSpots sc) \<Longrightarrow> count_targeting t (obj_modify k f m) = count_targeting t m"
  by (induction m) (auto simp: count_targeting_def obj_modify_def Object_values_def)

lemma captureView_closed:
  assumes "currentScene st \<noteq> []" "obj_get (ed_scenes st) (currentScene st) \<noteq> None"
  shows "updateSceneWithCapturedView p y h st =
     (set_scenes (map (\<lambda>(k, sc). (k, (if k = currentScene st then sc\<lparr>pitch := p, yaw := y, hfov := h\<rparr> else sc)
          \<lparr>hotSpots := map (retarget (currentScene st) \<lparr>u_targetPitch = Some p, u_targetYaw = Some y, u_targetHfov = Some h\<rparr>) (hotSpots sc)\<rparr>)) (ed_scenes st)) st,
      count_targeting (currentScene st) (ed_scenes st))"
  using assms
  by (auto simp: updateSceneWithCapturedView_def updateHotspotReferences_def update_scenes_eq
      set_scenes_def obj_modify_def count_targeting_obj_modify [unfolded obj_modify_def] Let_def split: prod.splits)

lemma retarget_capture:
  "retarget S \<lparr>u_targetPitch = Some p, u_targetYaw = Some y, u_targetHfov = Some h\<rparr> a =
     (if hs_sceneId a = S then a\<lparr>targetPitch := p, targetYaw := y, targetHfov := h\<rparr> else a)"
  by (simp add: retarget_def apply_updates_def)

text \<open>
  Claim C4. Capturing the view \<open>(p, y, h)\<close> for the selected scene \<open>S\<close>: the scene map keeps
  its keys; scene \<open>S\<close> gets the camera \<open>(p, y, h)\<close> and every other scene keeps its
  camera; every hotspot of every scene keeps its label and its anchor position; a hotspot
  whose \<open>sceneId\<close> is \<open>S\<close> gets the target view \<open>(p, y, h)\<close> and changes in nothing else,
  every other hotspot is unchanged; and the count that the function obtains from
  \<^verbatim>\<open>updateHotspotReferences\<close> is the number of hotspots of the document that lead to \<open>S\<close>.
\<close>

theorem captureView_effect:
  assumes cur: "currentScene st = S" and ne: "S \<noteq> []"
    and ex: "obj_get (ed_scenes st) S \<noteq> None"
  shows "case updateSceneWithCapturedView p y h st of (st', n) \<Rightarrow>
     Object_keys (ed_scenes st') = Object_keys (ed_scenes st) \<and>
     (\<forall>j < length (ed_scenes st).
        (if fst (ed_scenes st ! j) = S
         then pitch (snd (ed_scenes st' ! j)) = p \<and> yaw (snd (ed_scenes st' ! j)) = y \<and>
              hfov (snd (ed_scenes st' ! j)) = h
         else pitch (snd (ed_scenes st' ! j)) = pitch (snd (ed_scenes st ! j)) \<and>
              yaw (snd (ed_scenes st' ! j)) = yaw (snd (ed_scenes st ! j)) \<and>
              hfov (snd (ed_scenes st' ! j)) = hfov (snd (ed_scenes st ! j))) \<and>
        length (hotSpots (snd (ed_scenes st' ! j))) = length (hotSpots (snd (ed_scenes st ! j))) \<and>
        (\<forall>i < length (hotSpots (snd (ed_scenes st ! j))).
           hs_text (hotSpots (snd (ed_scenes st' ! j)) ! i) =
             hs_text (hotSpots (snd (ed_scenes st ! j)) ! i) \<and>
           hs_pitch (hotSpots (snd (ed_scenes st' ! j)) ! i) =
             hs_pitch (hotSpots (snd (ed_scenes st ! j)) ! i) \<and>
           hs_yaw (hotSpots (snd (ed_scenes st' ! j)) ! i) =
             hs_yaw (hotSpots (snd (ed_scenes st ! j)) ! i) \<and>
           (if hs_sceneId (hotSpots (snd (ed_scenes st ! j)) ! i) = S
            then hotSpots (snd (ed_scenes st' ! j)) ! i =
                   (hotSpots (snd (ed_scenes st ! j)) ! i)
                     \<lparr>targetPitch := p, targetYaw := y, targetHfov := h\<rparr>
            else hotSpots (snd (ed_scenes st' ! j)) ! i =
                   hotSpots (snd (ed_scenes st ! j)) ! i))) \<and>
     n = count_targeting S (ed_scenes st) \<and>
     tc_default (config st') = tc_default (config st) \<and>
     hotspotCounter st' = hotspotCounter st \<and> currentScene st' = S"
proof -
  have "currentScene st \<noteq> []" "obj_get (ed_scenes st) (currentScene st) \<noteq> None"
    using cur ne ex by simp_all
  note closed = captureView_closed [OF this, of p y h, unfolded cur]
  show ?thesis
    unfolding closed
    using cur by (auto simp: set_scenes_def Object_keys_def retarget_capture split: prod.splits)
qed

theorem captureView_effect_witness:
  "currentScene tour_ABC = ''B'' \<and> ''B'' \<noteq> [] \<and> obj_get (ed_scenes tour_ABC) ''B'' \<noteq> None \<and>
   snd (updateSceneWithCapturedView 10 20 90 tour_ABC) = 2 \<and>
   hotSpots (snd (ed_scenes (fst (updateSceneWithCapturedView 10 20 90 tour_ABC)) ! 0)) ! 0 =
     (link ''hs_B_001'' ''B'')\<lparr>targetPitch := 10, targetYaw := 20, targetHfov := 90\<rparr>"
  using captureView_effect [of tour_ABC "''B''" 10 20 90]
  by (simp add: tour_ABC_def editor_of_def obj_get_def count_targeting_def Object_values_def
      plain_scene_def link_def split: prod.splits)

section \<open>Validating a hotspot id\<close>

lemma ex_less_Suc: "(\<exists>j < Suc n. P j) \<longleftrightarrow> P 0 \<or> (\<exists>j < n. P (Suc j))"
  by (metis less_Suc_eq_0_disj)

lemma duplicate_in_hotspots_iff:
  "duplicate_in_hotspots hid same ex i hs \<longleftrightarrow>
     (\<exists>j < length hs. hs_id (hs ! j) = Some hid \<and> \<not> (same \<and> i + int j = ex))"
proof (induction hs arbitrary: i)
  case Nil
  then show ?case by simp
next
  case (Cons a hs)
  have shift: "i + (1 + int j) = i + 1 + int j" for j by simp
  have IH: "duplicate_in_hotspots hid same ex (i + 1) hs \<longleftrightarrow>
     (\<exists>j < length hs. hs_id (hs ! j) = Some hid \<and> \<not> (same \<and> i + (1 + int j) = ex))"
    unfolding shift by (rule Cons.IH)
  show ?case
  proof (cases "same \<and> i = ex")
    case True
    then show ?thesis using IH by (simp add: ex_less_Suc)
  next
    case False
    then show ?thesis using IH by (auto simp: ex_less_Suc)
  qed
qed

lemma find_duplicate_iff:
  "find_duplicate hid S ex m \<noteq> None \<longleftrightarrow>
     (\<exists>a < length m. \<exists>j < length (hotSpots (snd (m ! a))).
        hs_id (hotSpots (snd (m ! a)) ! j) = Some hid \<and> \<not> (fst (m ! a) = S \<and> int j = ex))"
proof (induction m)
  case Nil
  then show ?case by simp
next
  case (Cons e m)
  obtain k sc where e: "e = (k, sc)" by (cases e)
  show ?case
  proof (cases "duplicate_in_hotspots hid (k = S) ex 0 (hotSpots sc)")
    case True
    then have "\<exists>j < length (hotSpots sc). hs_id (hotSpots sc ! j) = Some hid \<and> \<not> (k = S \<and> int j = ex)"
      by (simp add: duplicate_in_hotspots_iff)
    then show ?thesis using True by (simp add: e ex_less_Suc)
  next
    case False
    then have "\<not> (\<exists>j < length (hotSpots sc). hs_id (hotSpots sc ! j) = Some hid \<and> \<not> (k = S \<and> int j = ex))"
      by (simp add: duplicate_in_hotspots_iff)
    then show ?thesis using False Cons.IH by (auto simp add: e ex_less_Suc)
  qed
qed

lemma distinct_concat_same_index:
  "distinct (concat (map f xs)) \<Longrightarrow> a < length xs \<Longrightarrow> b < length xs \<Longrightarrow>
   x \<in> set (f (xs ! a)) \<Longrightarrow> x \<in> set (f (xs ! b)) \<Longrightarrow> a = b"
proof (induction xs arbitrary: a b)
  case Nil
  then show ?case by simp
next
  case (Cons y ys)
  show ?case
  proof (cases a)
    case a0: 0
    show ?thesis
    proof (cases b)
      case 0
      with a0 show ?thesis by simp
    next
      case (Suc b')
      then have "x \<in> set (concat (map f ys))" using Cons.prems by auto
      moreover have "x \<in> set (f y)" using Cons.prems a0 by simp
      ultimately show ?thesis using Cons.prems(1) by auto
    qed
  next
    case (Suc a')
    show ?thesis
    proof (cases b)
      case 0
      then have "x \<in> set (f y)" using Cons.prems by simp
      moreover have "x \<in> set (concat (map f ys))" using Cons.prems Suc by auto
      ultimately show ?thesis using Cons.prems(1) by auto
    next
      case b: (Suc b')
      have "a' = b'" using Cons.IH [of a' b'] Cons.prems Suc b by simp
      then show ?thesis using Suc b by simp
    qed
  qed
qed

text \<open>
  Claim C10, as the code has it. Let the hotspot at index \<open>i\<close> of scene \<open>S\<close> carry the id
  \<open>h\<close>. Validating \<open>h\<close> for an edit of that very hotspot (scene \<open>S\<close>, exclude index \<open>i\<close>)
  leaves that hotspot, and no other, out of the duplicate check: the validation passes
  exactly when \<open>h\<close> is blank, or \<open>h\<close> is an identifier (\<open>id_pattern\<close>) and every hotspot of
  the document that carries \<open>h\<close> sits at index \<open>i\<close> of scene \<open>S\<close>. So the own id is
  rejected when it is no identifier or when another hotspot carries it too. Validating
  the same \<open>h\<close> for any other hotspot, that is for any other pair of scene and exclude
  index, among them a new hotspot (exclude index -1), is rejected unless \<open>h\<close> is blank,
  and when \<open>h\<close> is an identifier the rejection reports a duplicate.
\<close>

theorem validateHotspotId_excludes_self:
  assumes sc: "obj_get m S = Some sc" and i: "i < length (hotSpots sc)"
    and hid: "hs_id (hotSpots sc ! i) = Some h"
  shows "(isValid (validateHotspotId h S (int i) m) \<longleftrightarrow>
            trim h = [] \<or>
            (id_pattern h \<and>
             (\<forall>a j. a < length m \<and> j < length (hotSpots (snd (m ! a))) \<and>
                    hs_id (hotSpots (snd (m ! a)) ! j) = Some h \<longrightarrow>
                    fst (m ! a) = S \<and> j = i))) \<and>
         (\<forall>S' e. (S', e) \<noteq> (S, int i) \<longrightarrow>
            (isValid (validateHotspotId h S' e m) \<longleftrightarrow> trim h = [])) \<and>
         (id_pattern h \<longrightarrow>
            (\<forall>S' e. (S', e) \<noteq> (S, int i) \<longrightarrow>
               (\<exists>k. validateHotspotId h S' e m =
                  \<lparr>isValid = False,
                   errorMessage =
                     Some (''Hotspot ID '' @ [CHR 0x22] @ h @ [CHR 0x22] @
                           '' already exists in scene '' @ [CHR 0x22] @ k @ [CHR 0x22])\<rparr>)))"
proof (intro conjI impI allI)
  have mem: "(S, sc) \<in> set m" using sc by (simp add: obj_get_def map_of_SomeD)
  then obtain a where a: "a < length m" "m ! a = (S, sc)" by (auto simp: in_set_conv_nth)
  have blank: "h = [] \<or> trim h = [] \<longleftrightarrow> trim h = []" by (auto simp: trim_def)
  have other: "find_duplicate h S' e m \<noteq> None" if "(S', e) \<noteq> (S, int i)" for S' e
    unfolding find_duplicate_iff using a i hid that by force
  show "isValid (validateHotspotId h S (int i) m) \<longleftrightarrow>
          trim h = [] \<or>
          (id_pattern h \<and>
           (\<forall>a j. a < length m \<and> j < length (hotSpots (snd (m ! a))) \<and>
                  hs_id (hotSpots (snd (m ! a)) ! j) = Some h \<longrightarrow>
                  fst (m ! a) = S \<and> j = i))"
  proof (cases "trim h = []")
    case True
    then show ?thesis by (simp add: validateHotspotId_def)
  next
    case False
    then have ne: "h \<noteq> []" using blank by blast
    have dup: "find_duplicate h S (int i) m = None \<longleftrightarrow>
        (\<forall>a j. a < length m \<and> j < length (hotSpots (snd (m ! a))) \<and>
               hs_id (hotSpots (snd (m ! a)) ! j) = Some h \<longrightarrow>
               fst (m ! a) = S \<and> j = i)"
      using find_duplicate_iff [of h S "int i" m] by auto
    show ?thesis
    proof (cases "id_pattern h")
      case True
      have v: "isValid (validateHotspotId h S (int i) m) \<longleftrightarrow> find_duplicate h S (int i) m = None"
        using True False ne
        by (cases "find_duplicate h S (int i) m") (simp_all add: validateHotspotId_def)
      show ?thesis unfolding v dup using True False by simp
    next
      case no: False
      then show ?thesis using False ne by (simp add: validateHotspotId_def)
    qed
  qed
  {
    fix S' e
    assume o: "(S', e) \<noteq> (S, int i)"
    obtain k where k: "find_duplicate h S' e m = Some k" using other [OF o] by auto
    show "isValid (validateHotspotId h S' e m) \<longleftrightarrow> trim h = []"
      using k blank by (auto simp: validateHotspotId_def)
  }
  {
    fix S' e
    assume pat: "id_pattern h" and o: "(S', e) \<noteq> (S, int i)"
    obtain k where k: "find_duplicate h S' e m = Some k" using other [OF o] by auto
    have "h \<noteq> []" "trim h \<noteq> []" using pat id_pattern_trim by (auto simp: id_pattern_def)
    then show "\<exists>k. validateHotspotId h S' e m =
        \<lparr>isValid = False,
         errorMessage =
           Some (''Hotspot ID '' @ [CHR 0x22] @ h @ [CHR 0x22] @
                 '' already exists in scene '' @ [CHR 0x22] @ k @ [CHR 0x22])\<rparr>"
      using pat k by (simp add: validateHotspotId_def)
  }
qed

theorem validateHotspotId_excludes_self_witness:
  "obj_get (ed_scenes tour_ABC) ''A'' = Some (plain_scene [link ''hs_B_001'' ''B'']) \<and>
   0 < length (hotSpots (plain_scene [link ''hs_B_001'' ''B''])) \<and>
   hs_id (hotSpots (plain_scene [link ''hs_B_001'' ''B'']) ! 0) = Some ''hs_B_001'' \<and>
   id_pattern ''hs_B_001'' \<and> trim ''hs_B_001'' \<noteq> [] \<and>
   isValid (validateHotspotId ''hs_B_001'' ''A'' 0 (ed_scenes tour_ABC)) \<and>
   \<not> isValid (validateHotspotId ''hs_B_001'' ''A'' (- 1) (ed_scenes tour_ABC)) \<and>
   \<not> isValid (validateHotspotId ''hs_B_001'' ''C'' 0 (ed_scenes tour_ABC))"
proof -
  have a: "obj_get (ed_scenes tour_ABC) ''A'' = Some (plain_scene [link ''hs_B_001'' ''B''])"
    by (simp add: tour_ABC_def editor_of_def obj_get_def)
  have b: "0 < length (hotSpots (plain_scene [link ''hs_B_001'' ''B'']))"
    by (simp add: plain_scene_def)
  have c: "hs_id (hotSpots (plain_scene [link ''hs_B_001'' ''B'']) ! 0) = Some ''hs_B_001''"
    by (simp add: plain_scene_def link_def)
  have d: "id_pattern ''hs_B_001''" "trim ''hs_B_001'' \<noteq> []"
    by (simp_all add: string_defs)
  have e: "isValid (validateHotspotId ''hs_B_001'' ''A'' 0 (ed_scenes tour_ABC))"
    by (simp add: validateHotspotId_def string_defs tour_ABC_def editor_of_def plain_scene_def
        link_def)
  have "\<forall>S' e. (S', e) \<noteq> (''A'', int 0) \<longrightarrow>
      (isValid (validateHotspotId ''hs_B_001'' S' e (ed_scenes tour_ABC)) \<longleftrightarrow>
       trim ''hs_B_001'' = [])"
    using validateHotspotId_excludes_self [OF a b c] by blast
  then have "\<not> isValid (validateHotspotId ''hs_B_001'' ''A'' (- 1) (ed_scenes tour_ABC))"
    "\<not> isValid (validateHotspotId ''hs_B_001'' ''C'' 0 (ed_scenes tour_ABC))"
    using d(2) by auto
  then show ?thesis using a b c d e by simp
qed
text \<open>
  The claim as stated fails on two documents built in the editor. In the first a hotspot
  of scene \<open>A\<close> is stored under the id \<open>hs_A_0\<close> typed by the user and a second one with the
  id field left empty, which the counter names \<open>hs_A_0\<close> again: re-submitting the id of
  the first during its own edit is rejected as a duplicate. In the second the scene is
  called \<open>my scene\<close>, and the hotspot stored with an empty id field gets the id
  \<open>hs_my scene_0\<close>: re-submitting it during its own edit is rejected for its form.
\<close>

theorem validateHotspotId_counterexample:
  "run (two_scenes @ [AddHotspot 0 0 (door_form ''hs_A_0'' ''B''), AddHotspot 0 0 (door_form [] ''B'')])
       initial_editor =
     Inr ((set_hotSpots ''A'' [stored_link ''hs_A_0'', stored_link ''hs_A_0''] editor_AB)
            \<lparr>hotspotCounter := 1\<rparr>) \<and>
   validateHotspotId ''hs_A_0'' ''A'' 0
       (ed_scenes ((set_hotSpots ''A'' [stored_link ''hs_A_0'', stored_link ''hs_A_0''] editor_AB)
            \<lparr>hotspotCounter := 1\<rparr>)) =
     \<lparr>isValid = False,
      errorMessage = Some (''Hotspot ID '' @ [CHR 0x22] @ ''hs_A_0'' @ [CHR 0x22] @
                           '' already exists in scene '' @ [CHR 0x22] @ ''A'' @ [CHR 0x22])\<rparr> \<and>
   run (spaced_scenes @ [AddHotspot 0 0 (door_form [] ''B'')]) initial_editor =
     Inr ((set_hotSpots ''my scene'' [stored_link ''hs_my scene_0''] editor_SB)
            \<lparr>hotspotCounter := 1\<rparr>) \<and>
   \<not> isValid (validateHotspotId ''hs_my scene_0'' ''my scene'' 0
       (ed_scenes ((set_hotSpots ''my scene'' [stored_link ''hs_my scene_0''] editor_SB)
            \<lparr>hotspotCounter := 1\<rparr>)))"
proof -
  have a: "run (two_scenes @ [AddHotspot 0 0 (door_form ''hs_A_0'' ''B''), AddHotspot 0 0 (door_form [] ''B'')])
       initial_editor =
     Inr ((set_hotSpots ''A'' [stored_link ''hs_A_0'', stored_link ''hs_A_0''] editor_AB)
            \<lparr>hotspotCounter := 1\<rparr>)"
    by (simp only: run_append run_two_scenes sum.case run.simps step_explicit step_generated)
  have b: "validateHotspotId ''hs_A_0'' ''A'' 0
       (ed_scenes ((set_hotSpots ''A'' [stored_link ''hs_A_0'', stored_link ''hs_A_0''] editor_AB)
            \<lparr>hotspotCounter := 1\<rparr>)) =
     \<lparr>isValid = False,
      errorMessage = Some (''Hotspot ID '' @ [CHR 0x22] @ ''hs_A_0'' @ [CHR 0x22] @
                           '' already exists in scene '' @ [CHR 0x22] @ ''A'' @ [CHR 0x22])\<rparr>"
    by (simp add: validateHotspotId_def string_defs editor_AB_def set_hotSpots_def editor_defs
        object_defs stored_link_def new_scene_def)
  have c: "run (spaced_scenes @ [AddHotspot 0 0 (door_form [] ''B'')]) initial_editor =
     Inr ((set_hotSpots ''my scene'' [stored_link ''hs_my scene_0''] editor_SB)
            \<lparr>hotspotCounter := 1\<rparr>)"
    by (simp only: run_append run_spaced_scenes sum.case run.simps step_generated_spaced)
  have d: "\<not> isValid (validateHotspotId ''hs_my scene_0'' ''my scene'' 0
       (ed_scenes ((set_hotSpots ''my scene'' [stored_link ''hs_my scene_0''] editor_SB)
            \<lparr>hotspotCounter := 1\<rparr>)))"
    by (simp add: validateHotspotId_def string_defs)
  show ?thesis using a b c d by blast
qed


section \<open>Reordering the scenes\<close>

lemma reorder_fold_get:
  "obj_get (fold (\<lambda>sceneId acc. case obj_get m sceneId of
                      Some sc \<Rightarrow> obj_set sceneId sc acc | None \<Rightarrow> acc) ord acc) k =
     (if k \<in> set ord \<and> obj_get m k \<noteq> None then obj_get m k else obj_get acc k)"
proof (induction ord arbitrary: acc)
  case Nil
  then show ?case by simp
next
  case (Cons x ord)
  show ?case
    by (cases "obj_get m x") (auto simp: Cons.IH obj_get_obj_set)
qed

lemma reorder_fold_distinct:
  "distinct (Object_keys acc) \<Longrightarrow>
   distinct (Object_keys (fold (\<lambda>sceneId acc. case obj_get m sceneId of
                      Some sc \<Rightarrow> obj_set sceneId sc acc | None \<Rightarrow> acc) ord acc))"
proof (induction ord arbitrary: acc)
  case Nil
  then show ?case by simp
next
  case (Cons x ord)
  show ?case
    by (cases "obj_get m x") (auto simp: Cons.prems distinct_keys_obj_set intro!: Cons.IH)
qed


lemma reorderScenes_parts:
  "ed_sceneOrder (reorderScenes newOrder st) = newOrder"
  "ed_scenes (reorderScenes newOrder st) =
     fold (\<lambda>sceneId acc. case obj_get (ed_scenes st) sceneId of
                      Some sc \<Rightarrow> obj_set sceneId sc acc | None \<Rightarrow> acc) newOrder []"
  "ed_firstScene (reorderScenes newOrder st) = ed_firstScene st"
  "currentScene (reorderScenes newOrder st) = currentScene st"
  "hotspotCounter (reorderScenes newOrder st) = hotspotCounter st"
  "pendingHotspot (reorderScenes newOrder st) = pendingHotspot st"
  by (simp_all add: reorderScenes_def Let_def)

lemma reorderScenes_get:
  "obj_get (ed_scenes (reorderScenes newOrder st)) k =
     (if k \<in> set newOrder then obj_get (ed_scenes st) k else None)"
  unfolding reorderScenes_parts reorder_fold_get by (auto simp: obj_get_def)

lemma reorderScenes_distinct: "distinct (Object_keys (ed_scenes (reorderScenes newOrder st)))"
  unfolding reorderScenes_parts by (rule reorder_fold_distinct) (simp add: Object_keys_def)

lemma reorderScenes_keeps_scenes:
  assumes "distinct (Object_keys (ed_scenes st))"
    and "set (Object_keys (ed_scenes st)) \<subseteq> set newOrder"
  shows "mset (ed_scenes (reorderScenes newOrder st)) = mset (ed_scenes st)"
proof (rule distinct_keys_mset_eq [OF assms(1) reorderScenes_distinct])
  fix k
  show "obj_get (ed_scenes (reorderScenes newOrder st)) k = obj_get (ed_scenes st) k"
    using assms(2) obj_get_None_iff [of "ed_scenes st" k] by (auto simp: reorderScenes_get)
qed

text \<open>
  Claim C2, as the code has it. \<^verbatim>\<open>reorderScenes\<close> checks nothing and never rejects.
  Let no entry of \<open>newOrder\<close> be the name of a member that every object inherits
  (\<open>prototype_member\<close>: \<^verbatim>\<open>constructor\<close>, \<^verbatim>\<open>toString\<close>, \<^verbatim>\<open>__proto__\<close> and the like; for such an
  entry the lookup \<^verbatim>\<open>tourConfig.scenes[sceneId]\<close> finds the inherited member). For every
  such list, \<^verbatim>\<open>reorderScenes\<close> makes \<open>newOrder\<close> the scene order and rebuilds the scene map
  from it: afterwards the map holds, unchanged, exactly the scenes whose ids occur in
  \<open>newOrder\<close>; a scene whose id is missing from \<open>newOrder\<close> is dropped from the document,
  an id in \<open>newOrder\<close> that names no scene stays in the scene order. \<open>firstScene\<close>, the
  selection and the counter are untouched. When \<open>newOrder\<close> contains every scene id, as
  every permutation of the scene ids does, the map keeps all its scenes.
\<close>

theorem reorderScenes_effect:
  assumes "\<forall>k \<in> set newOrder. \<not> prototype_member k"
  shows
  "ed_sceneOrder (reorderScenes newOrder st) = newOrder \<and>
   (\<forall>k. obj_get (ed_scenes (reorderScenes newOrder st)) k =
          (if k \<in> set newOrder then obj_get (ed_scenes st) k else None)) \<and>
   ed_firstScene (reorderScenes newOrder st) = ed_firstScene st \<and>
   currentScene (reorderScenes newOrder st) = currentScene st \<and>
   hotspotCounter (reorderScenes newOrder st) = hotspotCounter st \<and>
   (distinct (Object_keys (ed_scenes st)) \<and> set (Object_keys (ed_scenes st)) \<subseteq> set newOrder \<longrightarrow>
      mset (ed_scenes (reorderScenes newOrder st)) = mset (ed_scenes st))"
  by (simp add: reorderScenes_parts(1,3,4,5) reorderScenes_get reorderScenes_keeps_scenes)

theorem reorderScenes_effect_witness:
  "\<not> prototype_member ''C'' \<and> \<not> prototype_member ''A'' \<and> \<not> prototype_member ''B'' \<and>
   distinct (Object_keys (ed_scenes tour_ABC)) \<and>
   set (Object_keys (ed_scenes tour_ABC)) \<subseteq> set [''C'', ''A'', ''B''] \<and>
   ed_sceneOrder (reorderScenes [''C'', ''A'', ''B''] tour_ABC) = [''C'', ''A'', ''B''] \<and>
   mset (ed_scenes (reorderScenes [''C'', ''A'', ''B''] tour_ABC)) = mset (ed_scenes tour_ABC)"
proof -
  have plain: "\<forall>k \<in> set [''C'', ''A'', ''B'']. \<not> prototype_member k"
    by (simp add: prototype_member_def)
  show ?thesis
    using reorderScenes_effect [OF plain, of tour_ABC] plain
    by (simp add: tour_ABC_def editor_of_def Object_keys_def)
qed

text \<open>
  The claim as stated fails: a list that misses the scene id \<open>B\<close> is not rejected. It
  becomes the scene order and scene \<open>B\<close> leaves the scene map.
\<close>

theorem reorderScenes_counterexample:
  "mset [''A'', ''C''] \<noteq> mset (Object_keys (ed_scenes tour_ABC)) \<and>
   reorderScenes [''A'', ''C''] tour_ABC \<noteq> tour_ABC \<and>
   ed_sceneOrder (reorderScenes [''A'', ''C''] tour_ABC) = [''A'', ''C''] \<and>
   Object_keys (ed_scenes (reorderScenes [''A'', ''C''] tour_ABC)) = [''A'', ''C'']"
proof -
  have a: "ed_sceneOrder (reorderScenes [''A'', ''C''] tour_ABC) = [''A'', ''C'']"
    by (simp add: reorderScenes_def Let_def editor_defs)
  have b: "Object_keys (ed_scenes (reorderScenes [''A'', ''C''] tour_ABC)) = [''A'', ''C'']"
    by (simp add: reorderScenes_def Let_def editor_defs example_defs object_defs)
  have c: "ed_sceneOrder tour_ABC = [''A'', ''B'', ''C'']"
    by (simp add: example_defs)
  have "reorderScenes [''A'', ''C''] tour_ABC \<noteq> tour_ABC"
    using a c by auto
  moreover have "mset [''A'', ''C''] \<noteq> mset (Object_keys (ed_scenes tour_ABC))"
    by (simp add: example_defs Object_keys_def)
  ultimately show ?thesis using a b by simp
qed


section \<open>Adding a scene\<close>

text \<open>
  Claim C7, at an input where the code and the claim part. \<^verbatim>\<open>addNewScene\<close> tests that the
  id and the path are not empty and that the id is not taken; it does not test the form of
  the id. The id \<open>my scene\<close> holds a space, so it is not an identifier; on the empty
  document \<^verbatim>\<open>addNewScene\<close> nevertheless stores the scene, puts the id into the scene order
  and makes it the first scene, whereas \<^verbatim>\<open>renameScene\<close> refuses the same id.
\<close>

theorem addNewScene_accepts_invalid_id:
  "\<not> id_pattern ''my scene'' \<and>
   Object_keys (ed_scenes (addNewScene ''my scene'' ''tiles/'' 5 8192 initial_editor)) = [''my scene''] \<and>
   ed_sceneOrder (addNewScene ''my scene'' ''tiles/'' 5 8192 initial_editor) = [''my scene''] \<and>
   ed_firstScene (addNewScene ''my scene'' ''tiles/'' 5 8192 initial_editor) = ''my scene'' \<and>
   renameScene ''lobby'' ''my scene'' True lobby_editor = (False, lobby_editor)"
  by (simp add: addNewScene_def renameScene_def Let_def string_defs editor_defs object_defs
      initial_editor_def)


section \<open>Renaming a scene\<close>

text \<open>
  Claim C5, at an input where the code and the claim part. The scene map of \<open>tour_ab\<close>
  lists \<open>a\<close>, then \<open>b\<close>. Renaming \<open>b\<close> to the free identifier \<open>5\<close> succeeds and keeps
  the second place in the scene order, but in the scene map the renamed scene moves
  to the front: \<open>5\<close> is an array index, and an object lists such keys before all others.
\<close>

theorem renameScene_moves_numeric_id:
  "id_pattern ''5'' \<and> obj_get (ed_scenes tour_ab) ''5'' = None \<and>
   Object_keys (ed_scenes tour_ab) = [''a'', ''b''] \<and>
   fst (renameScene ''b'' ''5'' True tour_ab) \<and>
   Object_keys (ed_scenes (snd (renameScene ''b'' ''5'' True tour_ab))) = [''5'', ''a''] \<and>
   ed_sceneOrder (snd (renameScene ''b'' ''5'' True tour_ab)) = [''a'', ''5'']"
  by (simp add: renameScene_def Let_def string_defs editor_defs object_defs example_defs tour_ab_def)

section \<open>The invariants along a run\<close>

lemma all_hotspot_ids_owned: "all_hotspot_ids m = map (hs_id \<circ> snd) (owned_hotspots m)"
  by (induction m) (auto simp: all_hotspot_ids_def owned_hotspots_def Object_values_def)

lemma set_owned_hotspots:
  "set (owned_hotspots m) = {(owner, h). \<exists>sc. (owner, sc) \<in> set m \<and> h \<in> set (hotSpots sc)}"
  by (induction m) (auto simp: owned_hotspots_def)

lemma targets_valid_owned:
  "targets_valid st \<longleftrightarrow>
     (\<forall>(owner, h) \<in> set (owned_hotspots (ed_scenes st)).
        hs_sceneId h \<in> set (Object_keys (ed_scenes st)) \<and> hs_sceneId h \<noteq> owner)"
  unfolding targets_valid_def set_owned_hotspots list_all_iff by fastforce

lemma document_ok_iff:
  "document_ok st \<longleftrightarrow> doc_ok (ed_scenes st) (ed_sceneOrder st) (ed_firstScene st)"
  unfolding document_ok_def invariants_def doc_ok_def hotspot_ids_unique_def
    all_hotspot_ids_owned targets_valid_owned sceneOrder_permutation_def firstScene_valid_def
  by blast

lemma mset_owned_hotspots:
  "mset (owned_hotspots m) =
     sum_mset (image_mset (\<lambda>(owner, sc). mset (map (Pair owner) (hotSpots sc))) (mset m))"
  by (induction m) (auto simp: owned_hotspots_def)

lemma doc_ok_cong:
  assumes "mset m' = mset m" "mset order' = mset order"
  shows "doc_ok m' order' first = doc_ok m order first"
proof -
  have keys: "mset (Object_keys m') = mset (Object_keys m)"
    using assms(1) by (metis Object_keys_def mset_map)
  have owned: "mset (owned_hotspots m') = mset (owned_hotspots m)"
    by (simp add: mset_owned_hotspots assms(1))
  have "mset (map (hs_id \<circ> snd) (owned_hotspots m')) = mset (map (hs_id \<circ> snd) (owned_hotspots m))"
    using owned by (metis mset_map)
  then have ids: "distinct (map (hs_id \<circ> snd) (owned_hotspots m')) =
      distinct (map (hs_id \<circ> snd) (owned_hotspots m))"
    by (rule mset_eq_imp_distinct_iff)
  have sets: "set (Object_keys m') = set (Object_keys m)" "set (owned_hotspots m') = set (owned_hotspots m)"
    using keys owned by (metis set_mset_mset)+
  have dk: "distinct (Object_keys m') = distinct (Object_keys m)"
    using keys by (rule mset_eq_imp_distinct_iff)
  show ?thesis
    unfolding doc_ok_def ids sets dk keys assms(2) by simp
qed


lemma owned_hotspots_append [simp]:
  "owned_hotspots (m @ m') = owned_hotspots m @ owned_hotspots m'"
  by (simp add: owned_hotspots_def)

lemma owned_hotspots_Cons [simp]:
  "owned_hotspots ((k, sc) # m) = map (Pair k) (hotSpots sc) @ owned_hotspots m"
  by (simp add: owned_hotspots_def)

lemma owned_hotspots_Nil [simp]: "owned_hotspots [] = []"
  by (simp add: owned_hotspots_def)

lemma Object_keys_simps [simp]:
  "Object_keys [] = []" "Object_keys ((k, v) # m) = k # Object_keys m"
  "Object_keys (m @ m') = Object_keys m @ Object_keys m'"
  by (simp_all add: Object_keys_def)

lemma doc_ok_add_scene:
  assumes ok: "doc_ok m order first" and new: "new \<notin> set (Object_keys m)"
    and hs: "hotSpots sc = []" and f: "first' = first \<or> first' = new"
  shows "doc_ok (obj_set new sc m) (order @ [new]) first'"
proof -
  have "mset (obj_set new sc m) = mset (m @ [(new, sc)])"
    using new by (simp add: obj_set_def)
  then have "doc_ok (obj_set new sc m) (order @ [new]) first' =
      doc_ok (m @ [(new, sc)]) (order @ [new]) first'"
    by (rule doc_ok_cong) simp
  moreover have "doc_ok (m @ [(new, sc)]) (order @ [new]) first'"
    using ok new hs f unfolding doc_ok_def by auto
  ultimately show ?thesis by simp
qed

lemma addNewScene_ok:
  assumes "document_ok st"
  shows "document_ok (addNewScene idField pathField ml cr st)"
proof (cases "trim idField = [] \<or> trim pathField = [] \<or> has_member (ed_scenes st) (trim idField)")
  case True
  then show ?thesis using assms by (auto simp: addNewScene_def Let_def)
next
  case False
  then have new: "trim idField \<notin> set (Object_keys (ed_scenes st))"
    by (simp add: has_member_def obj_get_None_iff)
  have ok: "doc_ok (ed_scenes st) (ed_sceneOrder st) (ed_firstScene st)"
    using assms by (simp add: document_ok_iff)
  have hs: "hotSpots (new_scene (trim pathField) ml cr) = []" by (simp add: new_scene_def)
  show ?thesis
    using False doc_ok_add_scene [OF ok new hs]
    by (simp add: addNewScene_def Let_def document_ok_iff)
qed

lemma doc_ok_delete:
  assumes ok: "doc_ok m order first"
  shows "doc_ok (map (\<lambda>(k, sc). (k, strip_targets X sc)) (obj_delete X m)) (remove1 X order)
           (if first = X then first_key (obj_delete X m) else first)"
proof -
  let ?m' = "map (\<lambda>(k, sc). (k, strip_targets X sc)) (obj_delete X m)"
  have keys: "Object_keys ?m' = filter (\<lambda>k. k \<noteq> X) (Object_keys m)"
    by (induction m) (auto simp: obj_delete_def)
  have owned: "owned_hotspots ?m' =
      filter (\<lambda>(owner, h). owner \<noteq> X \<and> hs_sceneId h \<noteq> X) (owned_hotspots m)"
    by (rule owned_hotspots_strip)
  have d: "distinct (Object_keys m)" using ok by (simp add: doc_ok_def)
  have rm: "remove1 X xs = filter (\<lambda>k. k \<noteq> X) xs" if "distinct xs" for xs :: "string list"
  proof -
    have "filter (\<lambda>k. k \<noteq> X) xs = removeAll X xs" by (induction xs) auto
    then show ?thesis using that by (simp add: distinct_remove1_removeAll)
  qed
  have order: "mset (remove1 X order) = mset (Object_keys ?m')"
  proof -
    have "mset (remove1 X order) = mset order - {#X#}" by simp
    also have "\<dots> = mset (Object_keys m) - {#X#}" using ok by (simp add: doc_ok_def)
    also have "\<dots> = mset (remove1 X (Object_keys m))" by simp
    also have "\<dots> = mset (Object_keys ?m')" using d by (simp add: keys rm)
    finally show ?thesis .
  qed
  have fk: "first_key (obj_delete X m) = [] \<or> first_key (obj_delete X m) \<in> set (Object_keys ?m')"
    unfolding keys by (induction m) (auto simp: first_key_def obj_delete_def)
  have ids: "distinct (map (hs_id \<circ> snd) (owned_hotspots ?m'))"
    unfolding owned using ok by (simp add: doc_ok_def distinct_map_filter)
  show ?thesis
    unfolding doc_ok_def
  proof (intro conjI)
    show "distinct (Object_keys ?m')" using d by (simp add: keys)
    show "distinct (map (hs_id \<circ> snd) (owned_hotspots ?m'))" by (rule ids)
    show "\<forall>(owner, h)\<in>set (owned_hotspots ?m').
        hs_sceneId h \<in> set (Object_keys ?m') \<and> hs_sceneId h \<noteq> owner"
      unfolding owned keys using ok by (auto simp: doc_ok_def)
    show "mset (remove1 X order) = mset (Object_keys ?m')" by (rule order)
    show "(if first = X then first_key (obj_delete X m) else first) = [] \<or>
        (if first = X then first_key (obj_delete X m) else first) \<in> set (Object_keys ?m')"
      using fk ok by (auto simp: doc_ok_def keys)
  qed
qed

lemma deleteCurrentScene_ok:
  assumes "document_ok st"
  shows "document_ok (deleteCurrentScene confirmed viewer st)"
proof (cases "currentScene st = [] \<or> \<not> confirmed")
  case True
  then show ?thesis using assms by (auto simp: deleteCurrentScene_def)
next
  case False
  then have c: "confirmed" and ne: "currentScene st \<noteq> []" by auto
  have ok: "doc_ok (ed_scenes st) (ed_sceneOrder st) (ed_firstScene st)"
    using assms by (simp add: document_ok_iff)
  show ?thesis
    using doc_ok_delete [OF ok, of "currentScene st"] c
    by (simp add: document_ok_iff deleteCurrentScene_parts [OF refl ne])
qed
lemma rename_fold_mset:
  "distinct (map ren (Object_keys m)) \<Longrightarrow> set (map ren (Object_keys m)) \<inter> set (Object_keys acc) = {} \<Longrightarrow>
   mset (fold (\<lambda>(key, value) acc. obj_set (ren key) value acc) m acc) =
     mset acc + mset (map (\<lambda>(k, v). (ren k, v)) m)"
proof (induction m arbitrary: acc)
  case Nil
  then show ?case by simp
next
  case (Cons e m)
  obtain k v where e: "e = (k, v)" by (cases e)
  have fresh: "ren k \<notin> set (Object_keys acc)" using Cons.prems(2) by (auto simp: e)
  then have step: "mset (obj_set (ren k) v acc) = add_mset (ren k, v) (mset acc)"
    by (simp add: obj_set_def)
  have "set (map ren (Object_keys m)) \<inter> set (Object_keys (obj_set (ren k) v acc)) = {}"
    using Cons.prems by (auto simp: e)
  moreover have "distinct (map ren (Object_keys m))" using Cons.prems(1) by (simp add: e)
  ultimately have "mset (fold (\<lambda>(key, value) acc. obj_set (ren key) value acc) m (obj_set (ren k) v acc)) =
      mset (obj_set (ren k) v acc) + mset (map (\<lambda>(k, v). (ren k, v)) m)"
    by (rule Cons.IH [rotated])
  then show ?case by (simp add: e step)
qed

lemma rename_fold_append:
  "distinct (map ren (Object_keys m)) \<Longrightarrow> set (map ren (Object_keys m)) \<inter> set (Object_keys acc) = {} \<Longrightarrow>
   \<forall>k\<in>set (Object_keys m). \<not> is_array_index (ren k) \<Longrightarrow>
   fold (\<lambda>(key, value) acc. obj_set (ren key) value acc) m acc =
     acc @ map (\<lambda>(k, v). (ren k, v)) m"
proof (induction m arbitrary: acc)
  case Nil
  then show ?case by simp
next
  case (Cons e m)
  obtain k v where e: "e = (k, v)" by (cases e)
  have fresh: "ren k \<notin> set (Object_keys acc)" using Cons.prems(2) by (auto simp: e)
  have step: "obj_set (ren k) v acc = acc @ [(ren k, v)]"
    using fresh Cons.prems(3) by (simp add: e obj_set_append)
  have "fold (\<lambda>(key, value) acc. obj_set (ren key) value acc) m (acc @ [(ren k, v)]) =
      (acc @ [(ren k, v)]) @ map (\<lambda>(k, v). (ren k, v)) m"
    using Cons.prems by (intro Cons.IH) (auto simp: e)
  then show ?case by (simp add: e step)
qed

lemma rename_step_eq:
  "(\<lambda>(key, value) acc. if key = old then obj_set new value acc else obj_set key value acc) =
   (\<lambda>(key, value) acc. obj_set (rename_key old new key) value acc)"
  by (auto simp: fun_eq_iff rename_key_def)

lemma update_indexOf:
  "distinct xs \<Longrightarrow> y \<notin> set xs \<Longrightarrow>
   (if indexOf xs x > - 1 then xs[nat (indexOf xs x) := y] else xs) = map (rename_key x y) xs"
proof (induction xs)
  case Nil
  then show ?case by simp
next
  case (Cons a xs)
  show ?case
  proof (cases "a = x")
    case True
    then have "x \<notin> set xs" using Cons.prems by simp
    then have "map (rename_key x y) xs = xs" by (induction xs) (auto simp: rename_key_def)
    moreover have "rename_key x y a = y" using True by (simp add: rename_key_def)
    ultimately show ?thesis using True by simp
  next
    case False
    show ?thesis
    proof (cases "x \<in> set xs")
      case True
      then have gt: "indexOf xs x > - 1"
        using indexOf_ge [of xs x] indexOf_absent_iff [of xs x] by linarith
      have "nat (indexOf (a # xs) x) = Suc (nat (indexOf xs x))"
        using False True by (rule indexOf_Cons_other)
      moreover have "indexOf (a # xs) x > - 1"
        using indexOf_ge [of "a # xs" x] indexOf_absent_iff [of "a # xs" x] True by (metis list.set_intros(2) order_less_le)
      moreover have "rename_key x y a = a" using False by (simp add: rename_key_def)
      ultimately show ?thesis
        using Cons.IH Cons.prems gt False by (simp del: indexOf.simps)
    next
      case nin: False
      then have "indexOf (a # xs) x = - 1" using False by (simp add: indexOf_absent_iff)
      moreover have "map (rename_key x y) (a # xs) = a # xs"
        using nin False by (induction xs) (auto simp: rename_key_def)
      ultimately show ?thesis by simp
    qed
  qed
qed

lemma renameScene_success:
  assumes "id_pattern new" "old \<noteq> new" "obj_get (ed_scenes st) new = None"
    "\<not> prototype_member new"
  shows "fst (renameScene old new True st)"
    and "ed_scenes (snd (renameScene old new True st)) =
      map (\<lambda>(k, sc). (k, sc\<lparr>hotSpots := map (repoint old new) (hotSpots sc)\<rparr>))
        (fold (\<lambda>(key, value) acc. obj_set (rename_key old new key) value acc) (ed_scenes st) [])"
    and "ed_sceneOrder (snd (renameScene old new True st)) =
      (if indexOf (ed_sceneOrder st) old > - 1
       then (ed_sceneOrder st)[nat (indexOf (ed_sceneOrder st) old) := new] else ed_sceneOrder st)"
    and "ed_firstScene (snd (renameScene old new True st)) = rename_key old new (ed_firstScene st)"
    and "currentScene (snd (renameScene old new True st)) =
      select_value (Object_keys (ed_scenes (snd (renameScene old new True st)))) new"
    and "hotspotCounter (snd (renameScene old new True st)) = hotspotCounter st"
  using assms id_pattern_trim [of new]
  by (simp_all add: renameScene_def Let_def rename_step_eq id_pattern_def repoint_def [abs_def]
      rename_key_def has_member_def selectScene_def)

lemma renameScene_failure:
  "\<not> (id_pattern new \<and> old \<noteq> new \<and> obj_get (ed_scenes st) new = None \<and>
      \<not> prototype_member new \<and> confirmed) \<Longrightarrow>
   snd (renameScene old new confirmed st) = st"
  by (auto simp: renameScene_def Let_def has_member_def)
lemma owned_hotspots_map:
  "owned_hotspots (map (\<lambda>(k, sc). (f k, sc\<lparr>hotSpots := map g (hotSpots sc)\<rparr>)) m) =
     map (\<lambda>(owner, h). (f owner, g h)) (owned_hotspots m)"
  by (induction m) auto

lemma owned_hotspots_map2:
  "(\<And>k sc. hotSpots (F k sc) = map g (hotSpots sc)) \<Longrightarrow>
   owned_hotspots (map (\<lambda>(k, sc). (f k, F k sc)) m) =
     map (\<lambda>(owner, h). (f owner, g h)) (owned_hotspots m)"
  by (induction m) auto

lemma owner_is_key: "(owner, h) \<in> set (owned_hotspots m) \<Longrightarrow> owner \<in> set (Object_keys m)"
  by (induction m) auto

lemma doc_ok_rename:
  assumes ok: "doc_ok m order first" and new: "new \<notin> set (Object_keys m)"
    and old: "old \<in> set (Object_keys m)"
  shows "doc_ok (map (\<lambda>(k, sc). (rename_key old new k, sc\<lparr>hotSpots := map (repoint old new) (hotSpots sc)\<rparr>)) m)
           (map (rename_key old new) order) (rename_key old new first)"
proof -
  let ?r = "rename_key old new"
  let ?m' = "map (\<lambda>(k, sc). (?r k, sc\<lparr>hotSpots := map (repoint old new) (hotSpots sc)\<rparr>)) m"
  have inj: "inj_on ?r (set (Object_keys m))"
    using new by (auto simp: inj_on_def rename_key_def)
  have keys: "Object_keys ?m' = map ?r (Object_keys m)"
    by (induction m) auto
  have owned: "owned_hotspots ?m' = map (\<lambda>(owner, h). (?r owner, repoint old new h)) (owned_hotspots m)"
    by (rule owned_hotspots_map)
  have ids: "map (hs_id \<circ> snd) (owned_hotspots ?m') = map (hs_id \<circ> snd) (owned_hotspots m)"
    unfolding owned by (auto simp: repoint_def)
  have tgt: "hs_sceneId (repoint old new h) = ?r (hs_sceneId h)" for h
    by (simp add: repoint_def rename_key_def)
  show ?thesis
    unfolding doc_ok_def
  proof (intro conjI)
    show "distinct (Object_keys ?m')"
      using ok inj by (simp add: keys doc_ok_def distinct_map)
    show "distinct (map (hs_id \<circ> snd) (owned_hotspots ?m'))"
      using ok by (simp add: ids doc_ok_def)
    show "\<forall>(owner, h)\<in>set (owned_hotspots ?m').
        hs_sceneId h \<in> set (Object_keys ?m') \<and> hs_sceneId h \<noteq> owner"
    proof (clarify, intro conjI)
      fix owner h
      assume "(owner, h) \<in> set (owned_hotspots ?m')"
      then obtain o' h' where oh: "(o', h') \<in> set (owned_hotspots m)"
        "owner = ?r o'" "h = repoint old new h'"
        unfolding owned by auto
      have t: "hs_sceneId h' \<in> set (Object_keys m)" "hs_sceneId h' \<noteq> o'"
        using ok oh(1) by (auto simp: doc_ok_def)
      have o: "o' \<in> set (Object_keys m)" using oh(1) by (rule owner_is_key)
      show "hs_sceneId h \<in> set (Object_keys ?m')"
        using t(1) by (simp add: oh(3) tgt keys)
      show "hs_sceneId h \<noteq> owner"
        using t o inj by (auto simp: oh(2,3) tgt inj_on_def)
    qed
    show "mset (map ?r order) = mset (Object_keys ?m')"
      using ok by (simp add: keys doc_ok_def)
    show "?r first = [] \<or> ?r first \<in> set (Object_keys ?m')"
    proof (cases "first = []")
      case True
      have "?r old \<in> set (Object_keys ?m')" using old by (simp add: keys)
      then show ?thesis using True by (cases "old = []") (simp_all add: rename_key_def)
    next
      case False
      then have "first \<in> set (Object_keys m)" using ok by (simp add: doc_ok_def)
      then show ?thesis by (simp add: keys)
    qed
  qed
qed

lemma renameScene_ok:
  assumes ok: "document_ok st" and old: "old \<in> set (Object_keys (ed_scenes st))"
  shows "document_ok (snd (renameScene old new confirmed st))"
proof (cases "id_pattern new \<and> old \<noteq> new \<and> obj_get (ed_scenes st) new = None \<and>
    \<not> prototype_member new \<and> confirmed")
  case False
  then show ?thesis using ok by (simp add: renameScene_failure)
next
  case True
  then have c: "confirmed = True" and pat: "id_pattern new" and ne: "old \<noteq> new"
    and none: "obj_get (ed_scenes st) new = None" and np: "\<not> prototype_member new" by auto
  let ?r = "rename_key old new"
  let ?m = "ed_scenes st"
  have dok: "doc_ok ?m (ed_sceneOrder st) (ed_firstScene st)"
    using ok by (simp add: document_ok_iff)
  have new: "new \<notin> set (Object_keys ?m)" using none by (simp add: obj_get_None_iff)
  have d: "distinct (Object_keys ?m)" using dok by (simp add: doc_ok_def)
  have inj: "inj_on ?r (set (Object_keys ?m))"
    using new by (auto simp: inj_on_def rename_key_def)
  let ?G = "\<lambda>(k, sc). (k, sc\<lparr>hotSpots := map (repoint old new) (hotSpots sc)\<rparr>)"
  let ?built = "fold (\<lambda>(key, value) acc. obj_set (?r key) value acc) ?m []"
  have "mset ?built = mset [] + mset (map (\<lambda>(k, v). (?r k, v)) ?m)"
    using d inj by (intro rename_fold_mset) (simp_all add: distinct_map)
  then have e1: "mset ?built = mset (map (\<lambda>(k, v). (?r k, v)) ?m)" by simp
  have "mset (map ?G ?built) = image_mset ?G (mset ?built)" by (simp only: mset_map)
  also have "\<dots> = image_mset ?G (mset (map (\<lambda>(k, v). (?r k, v)) ?m))" by (simp only: e1)
  also have "\<dots> = mset (map ?G (map (\<lambda>(k, v). (?r k, v)) ?m))" by (simp only: mset_map)
  also have "map ?G (map (\<lambda>(k, v). (?r k, v)) ?m) =
      map (\<lambda>(k, sc). (?r k, sc\<lparr>hotSpots := map (repoint old new) (hotSpots sc)\<rparr>)) ?m"
    by (simp add: case_prod_beta)
  finally have ms: "mset (ed_scenes (snd (renameScene old new True st))) =
      mset (map (\<lambda>(k, sc). (?r k, sc\<lparr>hotSpots := map (repoint old new) (hotSpots sc)\<rparr>)) ?m)"
    by (simp add: renameScene_success(2) [OF pat ne none np])
  have dord: "distinct (ed_sceneOrder st)"
    using dok by (metis doc_ok_def mset_eq_imp_distinct_iff)
  have nord: "new \<notin> set (ed_sceneOrder st)"
    using dok new by (metis doc_ok_def set_mset_mset)
  have ord: "ed_sceneOrder (snd (renameScene old new True st)) = map ?r (ed_sceneOrder st)"
    by (simp only: renameScene_success(3) [OF pat ne none np] update_indexOf [OF dord nord])
  have "doc_ok (ed_scenes (snd (renameScene old new True st)))
      (ed_sceneOrder (snd (renameScene old new True st)))
      (ed_firstScene (snd (renameScene old new True st))) =
    doc_ok (map (\<lambda>(k, sc). (?r k, sc\<lparr>hotSpots := map (repoint old new) (hotSpots sc)\<rparr>)) ?m)
      (map ?r (ed_sceneOrder st)) (?r (ed_firstScene st))"
    unfolding ord renameScene_success(4) [OF pat ne none np]
    by (rule doc_ok_cong [OF ms]) simp
  then show ?thesis
    using doc_ok_rename [OF dok new old] by (simp add: document_ok_iff c)
qed

lemma captureView_ok:
  assumes ok: "document_ok st"
  shows "document_ok (fst (updateSceneWithCapturedView p y h st))"
proof (cases "currentScene st = [] \<or> obj_get (ed_scenes st) (currentScene st) = None")
  case True
  then show ?thesis using ok by (auto simp: updateSceneWithCapturedView_def)
next
  case False
  then have a: "currentScene st \<noteq> []" "obj_get (ed_scenes st) (currentScene st) \<noteq> None" by auto
  let ?u = "\<lparr>u_targetPitch = Some p, u_targetYaw = Some y, u_targetHfov = Some h\<rparr>"
  let ?F = "\<lambda>k sc. (if k = currentScene st then sc\<lparr>pitch := p, yaw := y, hfov := h\<rparr> else sc)
          \<lparr>hotSpots := map (retarget (currentScene st) ?u) (hotSpots sc)\<rparr>"
  let ?m' = "map (\<lambda>(k, sc). (k, ?F k sc)) (ed_scenes st)"
  have keys: "Object_keys ?m' = Object_keys (ed_scenes st)"
    by (induction "ed_scenes st") (auto simp: Object_keys_def)
  have "owned_hotspots ?m' =
      map (\<lambda>(owner, h). (owner, retarget (currentScene st) ?u h)) (owned_hotspots (ed_scenes st))"
    by (rule owned_hotspots_map2) simp
  moreover have "hs_id (retarget (currentScene st) ?u x) = hs_id x"
    "hs_sceneId (retarget (currentScene st) ?u x) = hs_sceneId x" for x
    by (simp_all add: retarget_capture)
  ultimately have "doc_ok ?m' (ed_sceneOrder st) (ed_firstScene st)"
    using ok unfolding document_ok_iff doc_ok_def keys
    by (auto simp: comp_def case_prod_beta)
  then show ?thesis
    by (simp add: captureView_closed [OF a] document_ok_iff)
qed
lemma trim_nonempty_has_char:
  assumes "trim s \<noteq> []"
  shows "\<exists>c\<in>set (trim s). \<not> is_ws c"
proof -
  let ?u = "dropWhile is_ws (rev (dropWhile is_ws s))"
  have u: "?u \<noteq> []" using assms by (simp add: trim_def)
  then have "\<not> is_ws (hd ?u)" by (rule hd_dropWhile)
  moreover have "hd ?u \<in> set (trim s)" using u by (simp add: trim_def)
  ultimately show ?thesis by blast
qed

lemma trim_trim_nonempty: "trim s \<noteq> [] \<Longrightarrow> trim (trim s) \<noteq> []"
  using trim_nonempty_has_char [of s] by (auto simp: trim_empty_iff list_all_iff)

lemma obj_modify_absent: "k \<notin> set (Object_keys m) \<Longrightarrow> obj_modify k f m = m"
  by (induction m) (auto simp: obj_modify_def)

lemma obj_modify_split:
  assumes d: "distinct (Object_keys m)" and get: "obj_get m k = Some sc"
  shows "\<exists>m1 m2. m = m1 @ (k, sc) # m2 \<and> k \<notin> set (Object_keys m1) \<and>
           k \<notin> set (Object_keys m2) \<and> obj_modify k f m = m1 @ (k, f sc) # m2"
proof -
  have "(k, sc) \<in> set m" using get by (simp add: obj_get_def map_of_SomeD)
  then obtain m1 m2 where m: "m = m1 @ (k, sc) # m2" by (auto dest: split_list)
  have k1: "k \<notin> set (Object_keys m1)" and k2: "k \<notin> set (Object_keys m2)"
    using d unfolding m by auto
  have "obj_modify k f m = obj_modify k f m1 @ (k, f sc) # obj_modify k f m2"
    unfolding m by (simp add: obj_modify_def)
  then have "obj_modify k f m = m1 @ (k, f sc) # m2"
    using k1 k2 by (simp add: obj_modify_absent)
  then show ?thesis using m k1 k2 by blast
qed

lemma doc_ok_set_hotSpots:
  assumes ok: "doc_ok m order first" and get: "obj_get m k = Some sc"
    and a: "distinct (map hs_id hs')"
    and b: "\<forall>h'\<in>set hs'. hs_id h' \<in> set (map hs_id (hotSpots sc)) \<or>
              hs_id h' \<notin> set (all_hotspot_ids m)"
    and c: "\<forall>h'\<in>set hs'. hs_sceneId h' \<in> set (Object_keys m) \<and> hs_sceneId h' \<noteq> k"
  shows "doc_ok (obj_modify k (\<lambda>sc. sc\<lparr>hotSpots := hs'\<rparr>) m) order first"
proof -
  have d: "distinct (Object_keys m)" using ok by (simp add: doc_ok_def)
  obtain m1 m2 where m: "m = m1 @ (k, sc) # m2"
    and m': "obj_modify k (\<lambda>sc. sc\<lparr>hotSpots := hs'\<rparr>) m = m1 @ (k, sc\<lparr>hotSpots := hs'\<rparr>) # m2"
    using obj_modify_split [OF d get] by blast
  let ?I = "\<lambda>x. map (hs_id \<circ> snd) (owned_hotspots x)"
  have idm: "all_hotspot_ids m = ?I m1 @ map hs_id (hotSpots sc) @ ?I m2"
    unfolding all_hotspot_ids_owned m by (simp add: comp_def)
  have dist: "distinct (?I m1 @ map hs_id (hotSpots sc) @ ?I m2)"
    using ok unfolding doc_ok_def m by (simp add: comp_def)
  have disj: "set (map hs_id (hotSpots sc)) \<inter> set (?I m1) = {}"
    "set (map hs_id (hotSpots sc)) \<inter> set (?I m2) = {}"
    using dist by auto
  have fresh: "hs_id h' \<notin> set (?I m1) \<and> hs_id h' \<notin> set (?I m2)" if "h' \<in> set hs'" for h'
  proof (cases "hs_id h' \<in> set (map hs_id (hotSpots sc))")
    case True
    then show ?thesis using disj by blast
  next
    case False
    then have "hs_id h' \<notin> set (all_hotspot_ids m)" using b that by blast
    then show ?thesis unfolding idm by simp
  qed
  have "set (map hs_id hs') \<inter> set (?I m1) = {}" "set (map hs_id hs') \<inter> set (?I m2) = {}"
    using fresh by auto
  moreover have "distinct (?I m1)" "distinct (?I m2)" "set (?I m1) \<inter> set (?I m2) = {}"
    using dist by auto
  ultimately have ids: "distinct (?I m1 @ map hs_id hs' @ ?I m2)"
    using a by (simp add: Int_commute) blast
  have keys: "Object_keys (m1 @ (k, sc\<lparr>hotSpots := hs'\<rparr>) # m2) = Object_keys m"
    unfolding m by simp
  show ?thesis
    unfolding m' doc_ok_def keys
  proof (intro conjI)
    show "distinct (Object_keys m)" by (rule d)
    show "distinct (map (hs_id \<circ> snd) (owned_hotspots (m1 @ (k, sc\<lparr>hotSpots := hs'\<rparr>) # m2)))"
      using ids by (simp add: comp_def)
    show "\<forall>(owner, h)\<in>set (owned_hotspots (m1 @ (k, sc\<lparr>hotSpots := hs'\<rparr>) # m2)).
        hs_sceneId h \<in> set (Object_keys m) \<and> hs_sceneId h \<noteq> owner"
      using ok c unfolding doc_ok_def m by auto
    show "mset order = mset (Object_keys m)" using ok by (simp add: doc_ok_def)
    show "first = [] \<or> first \<in> set (Object_keys m)" using ok by (simp add: doc_ok_def)
  qed
qed

lemma set_hotSpots_ok:
  assumes ok: "document_ok st" and get: "obj_get (ed_scenes st) k = Some sc"
    and a: "distinct (map hs_id hs')"
    and b: "\<forall>h'\<in>set hs'. hs_id h' \<in> set (map hs_id (hotSpots sc)) \<or>
              hs_id h' \<notin> set (all_hotspot_ids (ed_scenes st))"
    and c: "\<forall>h'\<in>set hs'. hs_sceneId h' \<in> set (Object_keys (ed_scenes st)) \<and> hs_sceneId h' \<noteq> k"
  shows "document_ok (set_hotSpots k hs' st)"
  using doc_ok_set_hotSpots [OF _ get a b c] ok
  by (simp add: document_ok_iff set_hotSpots_def)

lemma own_hotspots_ok:
  assumes ok: "document_ok st" and get: "obj_get (ed_scenes st) k = Some sc"
  shows "distinct (map hs_id (hotSpots sc))"
    and "\<forall>h\<in>set (hotSpots sc). hs_sceneId h \<in> set (Object_keys (ed_scenes st)) \<and> hs_sceneId h \<noteq> k"
proof -
  have mem: "(k, sc) \<in> set (ed_scenes st)" using get by (simp add: obj_get_def map_of_SomeD)
  then obtain m1 m2 where m: "ed_scenes st = m1 @ (k, sc) # m2" by (auto dest: split_list)
  have dok: "doc_ok (ed_scenes st) (ed_sceneOrder st) (ed_firstScene st)"
    using ok by (simp add: document_ok_iff)
  show "distinct (map hs_id (hotSpots sc))"
    using dok unfolding doc_ok_def m by (simp add: comp_def)
  show "\<forall>h\<in>set (hotSpots sc). hs_sceneId h \<in> set (Object_keys (ed_scenes st)) \<and> hs_sceneId h \<noteq> k"
    using dok unfolding doc_ok_def using m by auto
qed

lemma find_duplicate_None:
  assumes "find_duplicate hid S ex m = None" and "(k', sc') \<in> set m"
    and "j < length (hotSpots sc')" and "hs_id (hotSpots sc' ! j) = Some hid"
  shows "k' = S \<and> int j = ex"
proof -
  obtain a where a: "a < length m" "m ! a = (k', sc')"
    using assms(2) by (auto simp: in_set_conv_nth)
  have "\<not> (\<exists>a < length m. \<exists>j < length (hotSpots (snd (m ! a))).
        hs_id (hotSpots (snd (m ! a)) ! j) = Some hid \<and> \<not> (fst (m ! a) = S \<and> int j = ex))"
    using assms(1) find_duplicate_iff [of hid S ex m] by simp
  then show ?thesis using a assms(3,4) by force
qed

lemma id_in_document:
  "x \<in> set (all_hotspot_ids m) \<Longrightarrow>
   \<exists>k' sc' j. (k', sc') \<in> set m \<and> j < length (hotSpots sc') \<and> hs_id (hotSpots sc' ! j) = x"
  unfolding all_hotspot_ids_def Object_values_def
  by (auto simp: in_set_conv_nth) (metis nth_mem prod.collapse)
lemma document_ok_pending [simp]:
  "document_ok (st\<lparr>pendingHotspot := x\<rparr>) = document_ok st"
  by (simp add: document_ok_iff)

lemma document_ok_current [simp]:
  "document_ok (st\<lparr>currentScene := x\<rparr>) = document_ok st"
  by (simp add: document_ok_iff)

lemma validate_explicit:
  assumes "isValid (validateHotspotId hid S ex m)" "hid \<noteq> []" "trim hid \<noteq> []"
  shows "find_duplicate hid S ex m = None"
  using assms by (auto simp: validateHotspotId_def split: if_splits option.splits)

lemma confirmAddHotspot_result:
  assumes res: "confirmAddHotspot form st = Inr st'" and ex: "trim (hotspotId form) \<noteq> []"
  obtains (unchanged) "st' = st"
  | (stored) pend sc data hs' where
       "pendingHotspot st = Some pend"
       "obj_get (ed_scenes st) (currentScene st) = Some sc"
       "find_duplicate (trim (hotspotId form)) (currentScene st)
         (if isEditing pend then (case editIndex pend of None \<Rightarrow> - 1 | Some i \<Rightarrow> int i) else - 1)
         (ed_scenes st) = None"
       "hs_id data = Some (trim (hotspotId form))" "hs_sceneId data = hotspotTarget form"
       "hotspotTarget form \<noteq> []"
       "st' = (set_hotSpots (currentScene st) hs' st)\<lparr>pendingHotspot := None\<rparr>"
       "if isEditing pend
        then (\<exists>i. editIndex pend = Some i \<and> i < length (hotSpots sc) \<and>
                  hs' = (hotSpots sc)[i := data])
        else hs' = hotSpots sc @ [data]"
proof (cases "pendingHotspot st")
  case None
  then have "st' = st" using res by (simp add: confirmAddHotspot_def)
  then show ?thesis by (rule unchanged)
next
  case (Some pend)
  let ?hid = "trim (hotspotId form)"
  let ?ex = "if isEditing pend then (case editIndex pend of None \<Rightarrow> - 1 | Some i \<Rightarrow> int i) else - 1"
  show ?thesis
  proof (cases "currentScene st = [] \<or> hotspotTarget form = [] \<or>
      \<not> isValid (validateHotspotId ?hid (currentScene st) ?ex (ed_scenes st))")
    case True
    then have "st' = st" using res Some
      by (auto simp: confirmAddHotspot_def Let_def split: if_splits)
    then show ?thesis by (rule unchanged)
  next
    case False
    then have valid: "isValid (validateHotspotId ?hid (currentScene st) ?ex (ed_scenes st))"
      and cur: "currentScene st \<noteq> []" and tgt: "hotspotTarget form \<noteq> []" by auto
    have dup: "find_duplicate ?hid (currentScene st) ?ex (ed_scenes st) = None"
      using valid ex trim_trim_nonempty [OF ex] by (rule validate_explicit)
    obtain sc where sc: "obj_get (ed_scenes st) (currentScene st) = Some sc"
      using res Some False ex
      by (cases "obj_get (ed_scenes st) (currentScene st)")
         (auto simp: confirmAddHotspot_def Let_def split: if_splits)
    let ?tc = "obj_get (ed_scenes st) (hotspotTarget form)"
    let ?data = "\<lparr>hs_pitch = hotspotPitch form, hs_yaw = hotspotYaw form,
         hs_type = ''scene'',
         hs_text = (if trim (hotspotText form) = [] then hotspotTarget form else trim (hotspotText form)),
         hs_sceneId = hotspotTarget form, hs_id = Some ?hid,
         targetPitch = (case ?tc of Some sc \<Rightarrow> js_or (pitch sc) 0 | None \<Rightarrow> 0),
         targetYaw = (case ?tc of Some sc \<Rightarrow> js_or (yaw sc) 0 | None \<Rightarrow> 0),
         targetHfov = (case ?tc of Some sc \<Rightarrow> js_or (hfov sc) 100 | None \<Rightarrow> 100)\<rparr>"
    show ?thesis
    proof (cases "isEditing pend")
      case True
      then obtain i where i: "editIndex pend = Some i" "i < length (hotSpots sc)"
        and st': "st' = (set_hotSpots (currentScene st) ((hotSpots sc)[i := ?data]) st)\<lparr>pendingHotspot := None\<rparr>"
        using res Some False ex sc
        by (cases "editIndex pend")
           (auto simp: confirmAddHotspot_def Let_def split: if_splits)
      show ?thesis
        using Some sc dup tgt st' True i
        by (intro stored [of pend sc ?data "(hotSpots sc)[i := ?data]"]) simp_all
    next
      case False
      then have st': "st' = (set_hotSpots (currentScene st) (hotSpots sc @ [?data]) st)\<lparr>pendingHotspot := None\<rparr>"
        using res Some \<open>\<not> (currentScene st = [] \<or> hotspotTarget form = [] \<or>
          \<not> isValid (validateHotspotId ?hid (currentScene st) ?ex (ed_scenes st)))\<close> ex sc
        by (auto simp: confirmAddHotspot_def Let_def split: if_splits)
      show ?thesis
        using Some sc dup tgt st' False
        by (intro stored [of pend sc ?data "hotSpots sc @ [?data]"]) simp_all
    qed
  qed
qed
lemma target_options_valid:
  "t \<in> set (target_options st) \<Longrightarrow>
   t \<in> set (Object_keys (ed_scenes st)) \<and> t \<noteq> currentScene st"
  by (simp add: target_options_def)

lemma confirmAddHotspot_ok:
  assumes ok: "document_ok st" and ex: "trim (hotspotId form) \<noteq> []"
    and tgt: "hotspotTarget form = [] \<or> hotspotTarget form \<in> set (target_options st)"
    and res: "confirmAddHotspot form st = Inr st'"
  shows "document_ok st'"
proof -
  let ?hid = "trim (hotspotId form)"
  let ?cur = "currentScene st"
  let ?m = "ed_scenes st"
  from res ex show ?thesis
  proof (cases rule: confirmAddHotspot_result)
    case unchanged
    then show ?thesis using ok by simp
  next
    case (stored pend sc data hs')
    note sc = stored(2) and dup = stored(3) and did = stored(4) and dtg = stored(5)
      and tne = stored(6) and st' = stored(7) and hs' = stored(8)
    have mem: "(?cur, sc) \<in> set ?m" using sc by (simp add: obj_get_def map_of_SomeD)
    have own: "distinct (map hs_id (hotSpots sc))"
      "\<forall>h\<in>set (hotSpots sc). hs_sceneId h \<in> set (Object_keys ?m) \<and> hs_sceneId h \<noteq> ?cur"
      using own_hotspots_ok [OF ok sc] by simp_all
    have dk: "distinct (Object_keys ?m)" using ok by (simp add: document_ok_def)
    have dtarget: "hs_sceneId data \<in> set (Object_keys ?m) \<and> hs_sceneId data \<noteq> ?cur"
      using tgt tne dtg target_options_valid [of "hotspotTarget form" st] by auto
    have "document_ok (set_hotSpots ?cur hs' st)"
    proof (cases "isEditing pend")
      case False
      then have h: "hs' = hotSpots sc @ [data]" using hs' by simp
      have fresh: "Some ?hid \<notin> set (all_hotspot_ids ?m)"
      proof
        assume "Some ?hid \<in> set (all_hotspot_ids ?m)"
        then obtain k' sc' j where "(k', sc') \<in> set ?m" "j < length (hotSpots sc')"
          "hs_id (hotSpots sc' ! j) = Some ?hid"
          using id_in_document by blast
        then have "int j = - 1"
          using find_duplicate_None [of ?hid ?cur "- 1" ?m k' sc' j] dup False by simp
        then show False by simp
      qed
      have "Some ?hid \<notin> set (map hs_id (hotSpots sc))"
      proof
        assume "Some ?hid \<in> set (map hs_id (hotSpots sc))"
        then have "Some ?hid \<in> set (all_hotspot_ids ?m)"
          using mem unfolding all_hotspot_ids_def Object_values_def by force
        then show False using fresh by simp
      qed
      then have a: "distinct (map hs_id hs')" using own(1) by (simp add: h did)
      have b: "\<forall>h'\<in>set hs'. hs_id h' \<in> set (map hs_id (hotSpots sc)) \<or>
          hs_id h' \<notin> set (all_hotspot_ids ?m)"
        using fresh by (auto simp: h did)
      have c: "\<forall>h'\<in>set hs'. hs_sceneId h' \<in> set (Object_keys ?m) \<and> hs_sceneId h' \<noteq> ?cur"
        using own(2) dtarget by (auto simp: h)
      show ?thesis by (rule set_hotSpots_ok [OF ok sc a b c])
    next
      case True
      then obtain i where i: "editIndex pend = Some i" "i < length (hotSpots sc)"
        and h: "hs' = (hotSpots sc)[i := data]" using hs' by auto
      have dup': "find_duplicate ?hid ?cur (int i) ?m = None" using dup True i by simp
      have only_i: "j = i" if "j < length (hotSpots sc)" "hs_id (hotSpots sc ! j) = Some ?hid" for j
        using find_duplicate_None [OF dup' mem that] by simp
      have "Some ?hid \<notin> set (map hs_id (hotSpots sc)) - {map hs_id (hotSpots sc) ! i}"
      proof
        assume "Some ?hid \<in> set (map hs_id (hotSpots sc)) - {map hs_id (hotSpots sc) ! i}"
        then obtain j where "j < length (hotSpots sc)" "hs_id (hotSpots sc ! j) = Some ?hid"
          "Some ?hid \<noteq> map hs_id (hotSpots sc) ! i"
          by (auto simp: in_set_conv_nth)
        then show False using only_i [of j] i(2) by auto
      qed
      then have "distinct ((map hs_id (hotSpots sc))[i := Some ?hid])"
        using own(1) by (rule distinct_list_update [rotated])
      then have a: "distinct (map hs_id hs')" by (simp add: h map_update did)
      have data_b: "hs_id data \<in> set (map hs_id (hotSpots sc)) \<or>
          hs_id data \<notin> set (all_hotspot_ids ?m)"
      proof (cases "Some ?hid \<in> set (all_hotspot_ids ?m)")
        case False
        then show ?thesis by (simp add: did)
      next
        case True
        then obtain k' sc' j where f: "(k', sc') \<in> set ?m" "j < length (hotSpots sc')"
          "hs_id (hotSpots sc' ! j) = Some ?hid"
          using id_in_document by blast
        then have kj: "k' = ?cur" "j = i" using find_duplicate_None [OF dup' f] by simp_all
        have "sc' = sc"
          using dk f(1) mem kj(1) by (metis Object_keys_def map_of_eq_Some_iff option.inject)
        then have "Some ?hid \<in> set (map hs_id (hotSpots sc))"
          using f(2,3) by (metis length_map nth_map nth_mem)
        then show ?thesis by (simp add: did)
      qed
      have sub: "set hs' \<subseteq> insert data (set (hotSpots sc))"
        unfolding h by (rule set_update_subset_insert)
      have b: "\<forall>h'\<in>set hs'. hs_id h' \<in> set (map hs_id (hotSpots sc)) \<or>
          hs_id h' \<notin> set (all_hotspot_ids ?m)"
        using sub data_b by auto
      have c: "\<forall>h'\<in>set hs'. hs_sceneId h' \<in> set (Object_keys ?m) \<and> hs_sceneId h' \<noteq> ?cur"
        using sub own(2) dtarget by auto
      show ?thesis by (rule set_hotSpots_ok [OF ok sc a b c])
    qed
    then show ?thesis by (simp add: st')
  qed
qed

lemma distinct_splice_remove: "distinct xs \<Longrightarrow> distinct (splice_remove i xs)"
  using set_take_disj_set_drop_if_distinct [of xs i "Suc i"]
  by (simp add: splice_remove_def)

lemma set_splice_remove: "set (splice_remove i xs) \<subseteq> set xs"
  by (auto simp: splice_remove_def dest: in_set_takeD in_set_dropD)

lemma map_splice_remove: "map f (splice_remove i xs) = splice_remove i (map f xs)"
  by (simp add: splice_remove_def take_map drop_map)

lemma mset_splice_insert: "mset (splice_insert i x xs) = add_mset x (mset xs)"
proof -
  have "mset (take i xs) + mset (drop i xs) = mset xs"
    by (metis append_take_drop_id mset_append)
  then show ?thesis by (simp add: splice_insert_def)
qed

lemma indexOf_lt: "x \<in> set xs \<Longrightarrow> nat (indexOf xs x) < length xs"
proof (induction xs)
  case Nil
  then show ?case by simp
next
  case (Cons a xs)
  show ?case
  proof (cases "a = x")
    case True
    then show ?thesis by simp
  next
    case False
    then have "x \<in> set xs" using Cons.prems by simp
    then show ?thesis using Cons.IH indexOf_Cons_other [OF False] by simp
  qed
qed

lemma mset_splice_remove:
  "i < length xs \<Longrightarrow> add_mset (xs ! i) (mset (splice_remove i xs)) = mset xs"
proof -
  assume "i < length xs"
  then have "xs = take i xs @ xs ! i # drop (Suc i) xs" by (rule id_take_nth_drop)
  then have "mset xs = mset (take i xs @ xs ! i # drop (Suc i) xs)" by simp
  then show ?thesis by (simp add: splice_remove_def)
qed

lemma mset_move:
  "i < length xs \<Longrightarrow> mset (splice_insert j (xs ! i) (splice_remove i xs)) = mset xs"
  by (simp add: mset_splice_insert mset_splice_remove)

lemma deleteHotspot_ok:
  assumes ok: "document_ok st" and res: "deleteHotspot index st = Inr st'"
  shows "document_ok st'"
proof (cases "currentScene st = []")
  case True
  then show ?thesis using ok res by (simp add: deleteHotspot_def)
next
  case False
  then obtain sc where sc: "obj_get (ed_scenes st) (currentScene st) = Some sc"
    using res by (cases "obj_get (ed_scenes st) (currentScene st)") (auto simp: deleteHotspot_def)
  show ?thesis
  proof (cases "index \<ge> 0 \<and> index < int (length (hotSpots sc))")
    case False
    then show ?thesis using ok res sc \<open>currentScene st \<noteq> []\<close> by (auto simp: deleteHotspot_def)
  next
    case True
    let ?hs' = "splice_remove (nat index) (hotSpots sc)"
    have st': "st' = set_hotSpots (currentScene st) ?hs' st"
      using res sc True \<open>currentScene st \<noteq> []\<close> by (auto simp: deleteHotspot_def)
    have own: "distinct (map hs_id (hotSpots sc))"
      "\<forall>h\<in>set (hotSpots sc). hs_sceneId h \<in> set (Object_keys (ed_scenes st)) \<and>
         hs_sceneId h \<noteq> currentScene st"
      using own_hotspots_ok [OF ok sc] by simp_all
    have sub: "set ?hs' \<subseteq> set (hotSpots sc)" by (rule set_splice_remove)
    have a: "distinct (map hs_id ?hs')"
      using own(1) by (simp add: map_splice_remove distinct_splice_remove)
    have b: "\<forall>h'\<in>set ?hs'. hs_id h' \<in> set (map hs_id (hotSpots sc)) \<or>
        hs_id h' \<notin> set (all_hotspot_ids (ed_scenes st))"
      using sub by auto
    have c: "\<forall>h'\<in>set ?hs'. hs_sceneId h' \<in> set (Object_keys (ed_scenes st)) \<and>
        hs_sceneId h' \<noteq> currentScene st"
      using sub own(2) by auto
    show ?thesis unfolding st' by (rule set_hotSpots_ok [OF ok sc a b c])
  qed
qed

lemma handleHotspotDrop_ok:
  assumes ok: "document_ok st" and res: "handleHotspotDrop dragged target st = Inr st'"
  shows "document_ok st'"
proof (cases dragged)
  case None
  then show ?thesis using ok res by (simp add: handleHotspotDrop_def)
next
  case (Some d)
  show ?thesis
  proof (cases "target = d")
    case True
    then show ?thesis using ok res Some by (simp add: handleHotspotDrop_def)
  next
    case False
    then obtain sc where sc: "obj_get (ed_scenes st) (currentScene st) = Some sc"
      using res Some
      by (cases "obj_get (ed_scenes st) (currentScene st)") (auto simp: handleHotspotDrop_def)
    have d: "d < length (hotSpots sc)"
      using res Some False sc by (auto simp: handleHotspotDrop_def split: if_splits)
    let ?hs' = "splice_insert target (hotSpots sc ! d) (splice_remove d (hotSpots sc))"
    have st': "st' = set_hotSpots (currentScene st) ?hs' st"
      using res Some False sc d by (auto simp: handleHotspotDrop_def)
    have ms: "mset ?hs' = mset (hotSpots sc)" using d by (rule mset_move)
    then have sets: "set ?hs' = set (hotSpots sc)" by (metis set_mset_mset)
    have own: "distinct (map hs_id (hotSpots sc))"
      "\<forall>h\<in>set (hotSpots sc). hs_sceneId h \<in> set (Object_keys (ed_scenes st)) \<and>
         hs_sceneId h \<noteq> currentScene st"
      using own_hotspots_ok [OF ok sc] by simp_all
    have "mset (map hs_id ?hs') = mset (map hs_id (hotSpots sc))"
      using ms by (metis mset_map)
    then have a: "distinct (map hs_id ?hs')"
      using own(1) by (metis mset_eq_imp_distinct_iff)
    have b: "\<forall>h'\<in>set ?hs'. hs_id h' \<in> set (map hs_id (hotSpots sc)) \<or>
        hs_id h' \<notin> set (all_hotspot_ids (ed_scenes st))"
      unfolding sets by auto
    have c: "\<forall>h'\<in>set ?hs'. hs_sceneId h' \<in> set (Object_keys (ed_scenes st)) \<and>
        hs_sceneId h' \<noteq> currentScene st"
      unfolding sets using own(2) by auto
    show ?thesis unfolding st' by (rule set_hotSpots_ok [OF ok sc a b c])
  qed
qed

lemma reorderScenes_ok:
  assumes ok: "document_ok st" and perm: "mset newOrder = mset (Object_keys (ed_scenes st))"
  shows "document_ok (reorderScenes newOrder st)"
proof -
  have dok: "doc_ok (ed_scenes st) (ed_sceneOrder st) (ed_firstScene st)"
    using ok by (simp add: document_ok_iff)
  have d: "distinct (Object_keys (ed_scenes st))" using dok by (simp add: doc_ok_def)
  have "set (Object_keys (ed_scenes st)) \<subseteq> set newOrder"
    using perm by (metis set_mset_mset subset_refl)
  then have ms: "mset (ed_scenes (reorderScenes newOrder st)) = mset (ed_scenes st)"
    using d by (intro reorderScenes_keeps_scenes)
  have "mset newOrder = mset (ed_sceneOrder st)" using perm dok by (simp add: doc_ok_def)
  then have "doc_ok (ed_scenes (reorderScenes newOrder st)) newOrder (ed_firstScene st) =
      doc_ok (ed_scenes st) (ed_sceneOrder st) (ed_firstScene st)"
    by (rule doc_ok_cong [OF ms])
  then show ?thesis using dok by (simp add: document_ok_iff reorderScenes_parts(1,3))
qed

lemma order_is_permutation:
  "document_ok st \<Longrightarrow> mset (ed_sceneOrder st) = mset (Object_keys (ed_scenes st))"
  by (simp add: document_ok_iff doc_ok_def)

lemma moveScene_ok:
  assumes ok: "document_ok st"
  shows "document_ok (moveScene sceneId direction st)"
proof (cases "indexOf (ed_sceneOrder st) sceneId = - 1")
  case True
  then show ?thesis using ok by (simp add: moveScene_def)
next
  case False
  let ?xs = "ed_sceneOrder st"
  let ?i = "indexOf ?xs sceneId"
  have ge: "?i \<ge> 0" using False indexOf_ge [of ?xs sceneId] by linarith
  let ?new = "(if direction = ''up'' \<and> ?i > 0 then swap (nat ?i - 1) (nat ?i) ?xs
       else if direction = ''down'' \<and> ?i < int (length ?xs) - 1
       then swap (nat ?i) (nat ?i + 1) ?xs else ?xs)"
  have lt: "nat ?i < length ?xs"
    using False by (intro indexOf_lt) (simp add: indexOf_absent_iff)
  have sw: "mset (swap a b ?xs) = mset ?xs" if "a < length ?xs" "b < length ?xs" for a b
    unfolding swap_def using that by (simp add: mset_swap)
  have "mset ?new = mset ?xs"
    using lt ge by (auto simp: sw)
  then have "mset ?new = mset (Object_keys (ed_scenes st))"
    using order_is_permutation [OF ok] by simp
  then have "document_ok (reorderScenes ?new st)" by (rule reorderScenes_ok [OF ok])
  then show ?thesis using False by (simp add: moveScene_def Let_def)
qed
lemma nth_indexOf: "x \<in> set xs \<Longrightarrow> xs ! nat (indexOf xs x) = x"
proof (induction xs)
  case Nil
  then show ?case by simp
next
  case (Cons a xs)
  show ?case
  proof (cases "a = x")
    case True
    then show ?thesis by simp
  next
    case False
    then have "x \<in> set xs" using Cons.prems by simp
    then show ?thesis using Cons.IH indexOf_Cons_other [OF False] by simp
  qed
qed

lemma handleDrop_ok:
  assumes ok: "document_ok st"
  shows "document_ok (handleDrop dragged target st)"
proof (cases "dragged \<noteq> [] \<and> target \<noteq> [] \<and> dragged \<noteq> target \<and>
    indexOf (ed_sceneOrder st) dragged > - 1 \<and> indexOf (ed_sceneOrder st) target > - 1")
  case False
  then show ?thesis using ok by (auto simp: handleDrop_def Let_def)
next
  case True
  let ?xs = "ed_sceneOrder st"
  let ?new = "splice_insert (nat (indexOf ?xs target)) dragged
      (splice_remove (nat (indexOf ?xs dragged)) ?xs)"
  have mem: "dragged \<in> set ?xs"
    using True indexOf_absent_iff [of ?xs dragged] by auto
  have "mset ?new = mset ?xs"
    using mset_move [OF indexOf_lt [OF mem], of "nat (indexOf ?xs target)"] nth_indexOf [OF mem]
    by simp
  then have "mset ?new = mset (Object_keys (ed_scenes st))"
    using order_is_permutation [OF ok] by simp
  then have "document_ok (reorderScenes ?new st)" by (rule reorderScenes_ok [OF ok])
  then show ?thesis using True by (simp add: handleDrop_def Let_def)
qed

lemma showAddHotspotModal_state:
  "document_ok (fst (showAddHotspotModal p y st)) = document_ok st"
  "ed_scenes (fst (showAddHotspotModal p y st)) = ed_scenes st"
  "currentScene (fst (showAddHotspotModal p y st)) = currentScene st"
  "target_options (fst (showAddHotspotModal p y st)) = target_options st"
  by (simp_all add: showAddHotspotModal_def target_options_def)

lemma editHotspot_state:
  assumes "editHotspot index st = Inr (st', f)"
  shows "document_ok st' = document_ok st" "target_options st' = target_options st"
  using assms
  by (auto simp: editHotspot_def showEditHotspotModal_def target_options_def Let_def
      split: if_splits option.splits)

lemma step_ok:
  assumes ok: "document_ok st" and adm: "admissible x st" and res: "step x st = Inr st'"
  shows "document_ok st'"
proof (cases x)
  case (AddScene a b c d)
  then show ?thesis using ok res addNewScene_ok by auto
next
  case (SelectScene v)
  then show ?thesis using ok res by (auto simp: selectScene_def)
next
  case (DeleteScene c v)
  then show ?thesis using ok res deleteCurrentScene_ok by auto
next
  case (RenameScene old new c)
  then show ?thesis using ok res adm renameScene_ok by auto
next
  case (CaptureView p y h)
  then show ?thesis using ok res captureView_ok by auto
next
  case (AddHotspot p y form)
  show ?thesis
  proof (cases "currentScene st = []")
    case True
    then show ?thesis using ok res AddHotspot by simp
  next
    case False
    then have r: "confirmAddHotspot form (fst (showAddHotspotModal p y st)) = Inr st'"
      using res AddHotspot by simp
    show ?thesis
      using adm AddHotspot ok
      by (intro confirmAddHotspot_ok [OF _ _ _ r]) (simp_all add: showAddHotspotModal_state)
  qed
next
  case (EditHotspot index form)
  show ?thesis
  proof (cases "editHotspot index st")
    case (Inl e)
    then show ?thesis using res EditHotspot by simp
  next
    case (Inr p)
    obtain st1 f where p: "p = (st1, f)" by (cases p)
    note st1 = editHotspot_state [OF Inr [unfolded p]]
    show ?thesis
    proof (cases f)
      case None
      then show ?thesis using res EditHotspot Inr p ok st1 by simp
    next
      case (Some form')
      then have r: "confirmAddHotspot form st1 = Inr st'"
        using res EditHotspot Inr p by simp
      show ?thesis
        using adm EditHotspot ok st1
        by (intro confirmAddHotspot_ok [OF _ _ _ r]) simp_all
    qed
  qed
next
  case (DeleteHotspot index)
  then show ?thesis using ok res deleteHotspot_ok by auto
next
  case (ReorderHotspots d t)
  then show ?thesis using ok res handleHotspotDrop_ok by auto
next
  case (MoveScene s d)
  then show ?thesis using ok res moveScene_ok by auto
next
  case (DropScene d t)
  then show ?thesis using ok res handleDrop_ok by auto
next
  case (ReorderScenes newOrder)
  then show ?thesis using ok res adm reorderScenes_ok by auto
qed

lemma trace_ok:
  "document_ok st \<Longrightarrow> admissible_run ops st \<Longrightarrow> list_all document_ok (trace ops st)"
proof (induction ops arbitrary: st)
  case Nil
  then show ?case by simp
next
  case (Cons x xs)
  show ?case
  proof (cases "step x st")
    case (Inl e)
    then show ?thesis using Cons.prems by simp
  next
    case (Inr st')
    then have "document_ok st'" using Cons.prems step_ok by auto
    moreover have "admissible_run xs st'" using Cons.prems Inr by simp
    ultimately have "list_all document_ok (trace xs st')" by (rule Cons.IH)
    then show ?thesis using Cons.prems Inr by simp
  qed
qed

lemma initial_ok: "document_ok initial_editor"
  by (simp add: document_ok_def invariants_def hotspot_ids_unique_def targets_valid_def
      sceneOrder_permutation_def firstScene_valid_def initial_editor_def all_hotspot_ids_def
      Object_keys_def Object_values_def)

text \<open>
  Claim C1, as the code has it. Start from a document whose four invariants hold, the
  empty document for one, and apply any sequence of add scene, select scene, delete
  scene, rename of an existing scene, capture view, add hotspot and edit hotspot with the
  id field filled in and the target taken from the drop-down, delete hotspot, reorder
  hotspots, move scene, drop scene, and reorder scenes with a permutation of the scene
  ids. Then the four invariants hold in every state of the run, up to the first
  operation that throws. Nothing is said of a hotspot stored with an empty id field, whose
  id comes from the counter, nor of \<^verbatim>\<open>reorderScenes\<close> with a list that is no permutation.
\<close>

theorem invariants_preserved:
  assumes "distinct (Object_keys (ed_scenes st))" and "invariants st"
    and "admissible_run ops st"
  shows "\<forall>s\<in>set (trace ops st). invariants s"
proof -
  have "document_ok st" using assms(1,2) by (simp add: document_ok_def)
  then have "list_all document_ok (trace ops st)" using assms(3) by (rule trace_ok)
  then show ?thesis by (simp add: list_all_iff document_ok_def)
qed

theorem invariants_preserved_witness:
  "distinct (Object_keys (ed_scenes initial_editor)) \<and> invariants initial_editor \<and>
   admissible_run tidy_ops initial_editor \<and>
   run tidy_ops initial_editor =
     Inr (reorderScenes [''B'', ''A''] (set_hotSpots ''A'' [stored_link ''door''] editor_AB)) \<and>
   invariants (reorderScenes [''B'', ''A''] (set_hotSpots ''A'' [stored_link ''door''] editor_AB))"
proof -
  have s1: "step (AddScene ''A'' ''tiles/A/'' 5 8192) initial_editor =
      Inr (addNewScene ''A'' ''tiles/A/'' 5 8192 initial_editor)" by simp
  have e1: "addNewScene ''B'' ''tiles/B/'' 5 8192 (addNewScene ''A'' ''tiles/A/'' 5 8192 initial_editor) =
      editor_AB\<lparr>currentScene := ''B''\<rparr>"
    by (simp add: editor_AB_def initial_editor_def addNewScene_def Let_def string_defs
        editor_defs object_defs)
  have e2: "selectScene ''A'' (editor_AB\<lparr>currentScene := ''B''\<rparr>) = editor_AB"
    by (simp add: selectScene_def editor_AB_def)
  have keysAB: "Object_keys (ed_scenes (set_hotSpots ''A'' [stored_link ''door''] editor_AB)) = [''A'', ''B'']"
    by (simp add: editor_AB_def set_hotSpots_def editor_defs object_defs)
  have optsAB: "target_options editor_AB = [''B'']"
    by (simp add: target_options_def editor_AB_def Object_keys_def)
  have confirm_door:
    "confirmAddHotspot (door_form ''door'' ''B'') (fst (showAddHotspotModal 0 0 editor_AB)) =
       Inr (set_hotSpots ''A'' [stored_link ''door''] editor_AB)"
    using step_door by (simp add: editor_AB_def)
  have form: "trim (hotspotId (door_form ''door'' ''B'')) \<noteq> []"
    "hotspotTarget (door_form ''door'' ''B'') = ''B''"
    by (simp_all add: door_form_def string_defs)
  have r: "run tidy_ops initial_editor =
     Inr (reorderScenes [''B'', ''A''] (set_hotSpots ''A'' [stored_link ''door''] editor_AB))"
    unfolding tidy_ops_def
    by (simp only: run_append run_two_scenes sum.case run.simps step_door step.simps(12))
  have adm: "admissible_run tidy_ops initial_editor"
    by (simp add: tidy_ops_def two_scenes_def e1 e2 step_door keysAB optsAB form
        del: step.simps(6))
  have i0: "distinct (Object_keys (ed_scenes initial_editor))" "invariants initial_editor"
    using initial_ok by (simp_all add: document_ok_def)
  have "last (trace tidy_ops initial_editor) =
      reorderScenes [''B'', ''A''] (set_hotSpots ''A'' [stored_link ''door''] editor_AB)"
    by (simp add: tidy_ops_def two_scenes_def e1 e2 step_door del: step.simps(6))
  moreover have "last (trace tidy_ops initial_editor) \<in> set (trace tidy_ops initial_editor)"
    by (rule last_in_set) (simp add: tidy_ops_def two_scenes_def)
  ultimately show ?thesis
    using invariants_preserved [OF i0 adm] i0 adm r by auto
qed

text \<open>
  The claim as stated fails on two runs from the empty document. In the first a hotspot
  is stored under the id \<open>hs_A_0\<close> typed by the user and a second one with the id field
  left empty: the counter yields \<open>hs_A_0\<close> again and two hotspots share an id. In the
  second \<^verbatim>\<open>reorderScenes\<close> is given a list that names scene \<open>A\<close> twice: the scene order
  keeps both entries while the scene map loses scene \<open>B\<close>.
\<close>

theorem invariants_counterexample:
  "run (two_scenes @ [AddHotspot 0 0 (door_form ''hs_A_0'' ''B''), AddHotspot 0 0 (door_form [] ''B'')])
       initial_editor =
     Inr ((set_hotSpots ''A'' [stored_link ''hs_A_0'', stored_link ''hs_A_0''] editor_AB)
            \<lparr>hotspotCounter := 1\<rparr>) \<and>
   \<not> invariants ((set_hotSpots ''A'' [stored_link ''hs_A_0'', stored_link ''hs_A_0''] editor_AB)
            \<lparr>hotspotCounter := 1\<rparr>) \<and>
   run (two_scenes @ [ReorderScenes [''A'', ''A'']]) initial_editor =
     Inr (reorderScenes [''A'', ''A''] editor_AB) \<and>
   \<not> invariants (reorderScenes [''A'', ''A''] editor_AB)"
proof -
  have a: "run (two_scenes @ [AddHotspot 0 0 (door_form ''hs_A_0'' ''B''), AddHotspot 0 0 (door_form [] ''B'')])
       initial_editor =
     Inr ((set_hotSpots ''A'' [stored_link ''hs_A_0'', stored_link ''hs_A_0''] editor_AB)
            \<lparr>hotspotCounter := 1\<rparr>)"
    by (simp only: run_append run_two_scenes sum.case run.simps step_explicit step_generated)
  have b: "\<not> hotspot_ids_unique ((set_hotSpots ''A'' [stored_link ''hs_A_0'', stored_link ''hs_A_0''] editor_AB)
            \<lparr>hotspotCounter := 1\<rparr>)"
    by (simp add: hotspot_ids_unique_def all_hotspot_ids_def editor_AB_def set_hotSpots_def
        editor_defs object_defs stored_link_def)
  have c: "run (two_scenes @ [ReorderScenes [''A'', ''A'']]) initial_editor =
     Inr (reorderScenes [''A'', ''A''] editor_AB)"
    by (simp only: run_append run_two_scenes sum.case run.simps step.simps)
  have d: "\<not> sceneOrder_permutation (reorderScenes [''A'', ''A''] editor_AB)"
    by (simp add: sceneOrder_permutation_def reorderScenes_def Let_def editor_AB_def
        editor_defs object_defs)
  show ?thesis using a b c d by (simp add: invariants_def)
qed



section \<open>Generating a hotspot id\<close>

lemma generate_from_spec:
  "\<exists>n\<ge>c. generate_from t m c = candidateId t n \<and> \<not> isHotspotIdInUse (candidateId t n) m \<and>
     (\<forall>k. c \<le> k \<and> k < n \<longrightarrow> isHotspotIdInUse (candidateId t k) m)"
proof (induction t m c rule: generate_from.induct)
  case (1 t m c)
  show ?case
  proof (cases "isHotspotIdInUse (candidateId t c) m")
    case False
    then have "generate_from t m c = candidateId t c" by (simp add: generate_from.simps)
    then show ?thesis using False by (intro exI [of _ c]) auto
  next
    case True
    then obtain n where n: "n \<ge> c + 1" "generate_from t m (c + 1) = candidateId t n"
      "\<not> isHotspotIdInUse (candidateId t n) m"
      "\<forall>k. c + 1 \<le> k \<and> k < n \<longrightarrow> isHotspotIdInUse (candidateId t k) m"
      using "1.IH" by blast
    have "generate_from t m c = candidateId t n"
      using True n(2) by (subst generate_from.simps) simp
    moreover have "\<forall>k. c \<le> k \<and> k < n \<longrightarrow> isHotspotIdInUse (candidateId t k) m"
    proof (intro allI impI)
      fix k assume "c \<le> k \<and> k < n"
      then show "isHotspotIdInUse (candidateId t k) m"
        using True n(4) by (cases "k = c") auto
    qed
    ultimately show ?thesis using n(1,3) by (intro exI [of _ n]) auto
  qed
qed

lemma empty_id_valid: "isValid (validateHotspotId [] S ex m)"
  by (simp add: validateHotspotId_def)

lemma step_empty_id:
  assumes cur: "currentScene st \<noteq> []" and sc: "obj_get (ed_scenes st) (currentScene st) = Some sc"
    and hid: "trim (hotspotId form) = []" and tgt: "hotspotTarget form \<noteq> []"
    and lo: "0 \<le> hotspotCounter st" and hi: "hotspotCounter st < 2 ^ 53"
  shows "\<exists>st' h. step (AddHotspot p y form) st = Inr st' \<and>
     obj_get (ed_scenes st') (currentScene st) = Some (sc\<lparr>hotSpots := hotSpots sc @ [h]\<rparr>) \<and>
     (\<forall>k. k \<noteq> currentScene st \<longrightarrow> obj_get (ed_scenes st') k = obj_get (ed_scenes st) k) \<and>
     hs_id h = Some (''hs_'' @ currentScene st @ ''_'' @ Number_toString (hotspotCounter st)) \<and>
     hs_sceneId h = hotspotTarget form \<and>
     hotspotCounter st' = hotspotCounter st + 1"
proof -
  have "double_round (hotspotCounter st + 1) = hotspotCounter st + 1"
    using lo hi by (intro double_round_exact) simp
  then show ?thesis
    using cur sc hid tgt
    by (auto simp add: showAddHotspotModal_def confirmAddHotspot_def Let_def empty_id_valid
        set_hotSpots_def obj_get_obj_modify)
qed

lemma candidateId_1: "candidateId t 1 = ''hs_'' @ t @ ''_001''"
  by (simp add: candidateId_def padStart_def dec_digit digit_char_def numeral_2_eq_2)

lemma candidateId_2: "candidateId t 2 = ''hs_'' @ t @ ''_002''"
  by (simp add: candidateId_def padStart_def dec_digit digit_char_def numeral_2_eq_2)

lemma generate_first:
  assumes "\<not> isHotspotIdInUse (''hs_'' @ t @ ''_001'') m"
  shows "generateSceneBasedHotspotId t m = ''hs_'' @ t @ ''_001''"
proof -
  have "generate_from t m 1 = candidateId t 1"
    using assms by (subst generate_from.simps) (simp only: candidateId_1 if_False)
  then show ?thesis by (simp only: generateSceneBasedHotspotId_def candidateId_1)
qed

lemma generate_second:
  assumes "isHotspotIdInUse (''hs_'' @ t @ ''_001'') m"
    and "\<not> isHotspotIdInUse (''hs_'' @ t @ ''_002'') m"
  shows "generateSceneBasedHotspotId t m = ''hs_'' @ t @ ''_002''"
proof -
  have "generate_from t m 1 = generate_from t m (1 + 1)"
    using assms(1) by (subst generate_from.simps) (simp only: candidateId_1 if_True)
  also have "\<dots> = generate_from t m 2" by (simp only: one_add_one)
  also have "\<dots> = candidateId t 2"
    using assms(2) by (subst generate_from.simps) (simp only: candidateId_2 if_False)
  finally show ?thesis by (simp only: generateSceneBasedHotspotId_def candidateId_2)
qed

lemmas dialog_defs = showAddHotspotModal_def hotspotTarget_change_def suggested_pattern_def
  word_char_def isHotspotIdInUse_def Let_def

lemma toFixed1_0: "toFixed1 0 = 0"
  by (simp add: toFixed1_def)

lemma suggestion_1:
  "suggested_form 0 0 ''B'' editor_AB = (door_form ''hs_B_001'' ''B'')\<lparr>hotspotText := ''B''\<rparr>"
  by (simp add: suggested_form_def dialog_defs generate_first editor_AB_def new_scene_def
      object_defs string_defs door_form_def toFixed1_0)

lemma suggestion_2:
  "suggested_form 0 0 ''B'' (set_hotSpots ''A'' [stored_link ''hs_B_001''] editor_AB) =
     (door_form ''hs_B_002'' ''B'')\<lparr>hotspotText := ''B''\<rparr>"
  by (simp add: suggested_form_def dialog_defs generate_first generate_second editor_AB_def
      new_scene_def object_defs string_defs door_form_def toFixed1_0 set_hotSpots_def
      editor_defs stored_link_def)

lemma confirm_suggestion_1:
  "step (AddHotspot 0 0 ((door_form ''hs_B_001'' ''B'')\<lparr>hotspotText := ''B''\<rparr>)) editor_AB =
     Inr (set_hotSpots ''A'' [stored_link ''hs_B_001''] editor_AB)"
  by (simp add: door_form_def editor_AB_def hotspot_defs string_defs editor_defs object_defs
      new_scene_def stored_link_def Let_def)

lemma confirm_suggestion_2:
  "step (AddHotspot 0 0 ((door_form ''hs_B_002'' ''B'')\<lparr>hotspotText := ''B''\<rparr>))
        (set_hotSpots ''A'' [stored_link ''hs_B_001''] editor_AB) =
     Inr (set_hotSpots ''A'' [stored_link ''hs_B_001'', stored_link ''hs_B_002''] editor_AB)"
  by (simp add: door_form_def editor_AB_def hotspot_defs string_defs editor_defs object_defs
      new_scene_def stored_link_def Let_def)

lemma suggestion_R:
  "suggested_form 0 0 ''B'' editor_RB = (door_form ''hs_room-1_001'' ''B'')\<lparr>hotspotText := ''B''\<rparr>"
  by (simp add: suggested_form_def dialog_defs generate_first editor_RB_def new_scene_def
      object_defs string_defs door_form_def toFixed1_0)

lemma confirm_suggestion_R:
  "step (AddHotspot 0 0 ((door_form ''hs_room-1_001'' ''B'')\<lparr>hotspotText := ''B''\<rparr>)) editor_RB =
     Inr (set_hotSpots ''room-1'' [stored_link ''hs_room-1_001''] editor_RB)"
  by (simp add: door_form_def editor_RB_def hotspot_defs string_defs editor_defs object_defs
      new_scene_def stored_link_def Let_def)

lemma target_change_id:
  "hotspotId (hotspotTarget_change target st f) =
     (if target \<noteq> [] \<and> (trim (hotspotId f) = [] \<or> suggested_pattern (trim (hotspotId f)))
      then generateSceneBasedHotspotId target (ed_scenes st) else hotspotId f)"
  by (simp add: hotspotTarget_change_def Let_def)

text \<open>
  Claim C6, as the code has it. When the id field of the dialog is empty at confirmation,
  the new hotspot gets the id \<open>hs_\<close>, the id of the owning scene, \<open>_\<close> and the value of
  the global counter, printed without padding, and the counter goes up by one (as long
  as the counter is below \<open>2^53\<close>, where adding one to a double is exact). The lowest
  unused identifier \<open>hs_<t>_<NNN>\<close>, three digits from \<open>001\<close> on, is what
  \<^verbatim>\<open>generateSceneBasedHotspotId(t)\<close> returns; the dialog opens with this suggestion for the
  owning scene in its id field. Picking a target replaces the id field by the suggestion
  for the target when the field is blank or matches \<^verbatim>\<open>/^hs_\w+_\d{3}$/\<close>, and leaves it alone
  otherwise. With the scenes \<open>A\<close> and \<open>B\<close>, confirming the dialog with its suggestions
  left in place stores \<open>hs_B_001\<close> and then \<open>hs_B_002\<close>; with the owning scene \<open>room-1\<close>,
  whose suggestion does not match the pattern, it stores \<open>hs_room-1_001\<close>.
\<close>

theorem empty_id_gets_counter:
  assumes cur: "currentScene st \<noteq> []" and sc: "obj_get (ed_scenes st) (currentScene st) = Some sc"
    and hid: "trim (hotspotId form) = []" and tgt: "hotspotTarget form \<noteq> []"
    and lo: "0 \<le> hotspotCounter st" and hi: "hotspotCounter st < 2 ^ 53"
  shows "(\<exists>st' h. step (AddHotspot p y form) st = Inr st' \<and>
            obj_get (ed_scenes st') (currentScene st) = Some (sc\<lparr>hotSpots := hotSpots sc @ [h]\<rparr>) \<and>
            (\<forall>k. k \<noteq> currentScene st \<longrightarrow> obj_get (ed_scenes st') k = obj_get (ed_scenes st) k) \<and>
            hs_id h = Some (''hs_'' @ currentScene st @ ''_'' @ Number_toString (hotspotCounter st)) \<and>
            hs_sceneId h = hotspotTarget form \<and>
            hotspotCounter st' = hotspotCounter st + 1) \<and>
         (\<exists>n\<ge>1. generateSceneBasedHotspotId t m = ''hs_'' @ t @ ''_'' @ padStart 3 (CHR ''0'') (dec n) \<and>
            \<not> isHotspotIdInUse (generateSceneBasedHotspotId t m) m \<and>
            (\<forall>k. 1 \<le> k \<and> k < n \<longrightarrow>
               isHotspotIdInUse (''hs_'' @ t @ ''_'' @ padStart 3 (CHR ''0'') (dec k)) m)) \<and>
         hotspotId (snd (showAddHotspotModal p y st)) =
           generateSceneBasedHotspotId (currentScene st) (ed_scenes st) \<and>
         (\<forall>target f.
            hotspotId (hotspotTarget_change target st f) =
              (if target \<noteq> [] \<and>
                  (trim (hotspotId f) = [] \<or> suggested_pattern (trim (hotspotId f)))
               then generateSceneBasedHotspotId target (ed_scenes st) else hotspotId f)) \<and>
         step (AddHotspot 0 0 (suggested_form 0 0 ''B'' editor_AB)) editor_AB =
           Inr (set_hotSpots ''A'' [stored_link ''hs_B_001''] editor_AB) \<and>
         step (AddHotspot 0 0 (suggested_form 0 0 ''B''
                 (set_hotSpots ''A'' [stored_link ''hs_B_001''] editor_AB)))
              (set_hotSpots ''A'' [stored_link ''hs_B_001''] editor_AB) =
           Inr (set_hotSpots ''A'' [stored_link ''hs_B_001'', stored_link ''hs_B_002''] editor_AB) \<and>
         step (AddHotspot 0 0 (suggested_form 0 0 ''B'' editor_RB)) editor_RB =
           Inr (set_hotSpots ''room-1'' [stored_link ''hs_room-1_001''] editor_RB)"
proof (intro conjI)
  show "\<exists>st' h. step (AddHotspot p y form) st = Inr st' \<and>
            obj_get (ed_scenes st') (currentScene st) = Some (sc\<lparr>hotSpots := hotSpots sc @ [h]\<rparr>) \<and>
            (\<forall>k. k \<noteq> currentScene st \<longrightarrow> obj_get (ed_scenes st') k = obj_get (ed_scenes st) k) \<and>
            hs_id h = Some (''hs_'' @ currentScene st @ ''_'' @ Number_toString (hotspotCounter st)) \<and>
            hs_sceneId h = hotspotTarget form \<and>
            hotspotCounter st' = hotspotCounter st + 1"
    using assms by (rule step_empty_id)
  show "\<exists>n\<ge>1. generateSceneBasedHotspotId t m = ''hs_'' @ t @ ''_'' @ padStart 3 (CHR ''0'') (dec n) \<and>
            \<not> isHotspotIdInUse (generateSceneBasedHotspotId t m) m \<and>
            (\<forall>k. 1 \<le> k \<and> k < n \<longrightarrow>
               isHotspotIdInUse (''hs_'' @ t @ ''_'' @ padStart 3 (CHR ''0'') (dec k)) m)"
    using generate_from_spec [of 1 t m]
    unfolding generateSceneBasedHotspotId_def candidateId_def by metis
  show "hotspotId (snd (showAddHotspotModal p y st)) =
           generateSceneBasedHotspotId (currentScene st) (ed_scenes st)"
    by (simp add: showAddHotspotModal_def)
  show "\<forall>target f.
            hotspotId (hotspotTarget_change target st f) =
              (if target \<noteq> [] \<and>
                  (trim (hotspotId f) = [] \<or> suggested_pattern (trim (hotspotId f)))
               then generateSceneBasedHotspotId target (ed_scenes st) else hotspotId f)"
    by (intro allI) (rule target_change_id)
  show "step (AddHotspot 0 0 (suggested_form 0 0 ''B'' editor_AB)) editor_AB =
           Inr (set_hotSpots ''A'' [stored_link ''hs_B_001''] editor_AB)"
    by (simp only: suggestion_1 confirm_suggestion_1)
  show "step (AddHotspot 0 0 (suggested_form 0 0 ''B''
                 (set_hotSpots ''A'' [stored_link ''hs_B_001''] editor_AB)))
              (set_hotSpots ''A'' [stored_link ''hs_B_001''] editor_AB) =
           Inr (set_hotSpots ''A'' [stored_link ''hs_B_001'', stored_link ''hs_B_002''] editor_AB)"
    by (simp only: suggestion_2 confirm_suggestion_2)
  show "step (AddHotspot 0 0 (suggested_form 0 0 ''B'' editor_RB)) editor_RB =
           Inr (set_hotSpots ''room-1'' [stored_link ''hs_room-1_001''] editor_RB)"
    by (simp only: suggestion_R confirm_suggestion_R)
qed

theorem empty_id_gets_counter_witness:
  "currentScene editor_AB \<noteq> [] \<and>
   obj_get (ed_scenes editor_AB) (currentScene editor_AB) = Some (new_scene ''tiles/A/'' 5 8192) \<and>
   trim (hotspotId (door_form [] ''B'')) = [] \<and> hotspotTarget (door_form [] ''B'') \<noteq> [] \<and>
   0 \<le> hotspotCounter editor_AB \<and> hotspotCounter editor_AB < 2 ^ 53 \<and>
   (\<exists>st' h. step (AddHotspot 0 0 (door_form [] ''B'')) editor_AB = Inr st' \<and>
      obj_get (ed_scenes st') ''A'' = Some ((new_scene ''tiles/A/'' 5 8192)\<lparr>hotSpots := [h]\<rparr>) \<and>
      hs_id h = Some ''hs_A_0'' \<and> hs_sceneId h = ''B'' \<and> hotspotCounter st' = 1)"
proof -
  have a: "currentScene editor_AB \<noteq> []" by (simp add: editor_AB_def)
  have b: "obj_get (ed_scenes editor_AB) (currentScene editor_AB) = Some (new_scene ''tiles/A/'' 5 8192)"
    by (simp add: editor_AB_def obj_get_def)
  have c: "trim (hotspotId (door_form [] ''B'')) = []" by (simp add: door_form_def trim_def)
  have d: "hotspotTarget (door_form [] ''B'') \<noteq> []" by (simp add: door_form_def)
  have e: "currentScene editor_AB = ''A''" "hotspotCounter editor_AB = 0"
    "hotSpots (new_scene ''tiles/A/'' 5 8192) = []" "hotspotTarget (door_form [] ''B'') = ''B''"
    by (simp_all add: editor_AB_def new_scene_def door_form_def)
  have f: "Number_toString 0 = ''0''" by (simp add: Number_toString_def dec_digit digit_char_def)
  have g: "0 \<le> hotspotCounter editor_AB" "hotspotCounter editor_AB < 2 ^ 53"
    by (simp_all add: editor_AB_def)
  have "\<exists>st' h. step (AddHotspot 0 0 (door_form [] ''B'')) editor_AB = Inr st' \<and>
      obj_get (ed_scenes st') (currentScene editor_AB) =
        Some ((new_scene ''tiles/A/'' 5 8192)
                \<lparr>hotSpots := hotSpots (new_scene ''tiles/A/'' 5 8192) @ [h]\<rparr>) \<and>
      (\<forall>k. k \<noteq> currentScene editor_AB \<longrightarrow>
           obj_get (ed_scenes st') k = obj_get (ed_scenes editor_AB) k) \<and>
      hs_id h = Some (''hs_'' @ currentScene editor_AB @ ''_'' @
                      Number_toString (hotspotCounter editor_AB)) \<and>
      hs_sceneId h = hotspotTarget (door_form [] ''B'') \<and>
      hotspotCounter st' = hotspotCounter editor_AB + 1"
    using empty_id_gets_counter [OF a b c d g, where p = 0 and y = 0 and t = "[]" and m = "[]"]
    by (rule conjunct1)
  then have "\<exists>st' h. step (AddHotspot 0 0 (door_form [] ''B'')) editor_AB = Inr st' \<and>
      obj_get (ed_scenes st') ''A'' = Some ((new_scene ''tiles/A/'' 5 8192)\<lparr>hotSpots := [h]\<rparr>) \<and>
      hs_id h = Some ''hs_A_0'' \<and> hs_sceneId h = ''B'' \<and> hotspotCounter st' = 1"
    unfolding e f by auto
  then show ?thesis using a b c d g by blast
qed

text \<open>
  The claim as stated fails: in a fresh editor with the scenes \<open>A\<close> and \<open>B\<close>, a hotspot
  from \<open>A\<close> to \<open>B\<close> confirmed with an empty id field is stored as \<open>hs_A_0\<close>.
\<close>

theorem empty_id_counterexample:
  "run (two_scenes @ [AddHotspot 0 0 (door_form [] ''B'')]) initial_editor =
     Inr ((set_hotSpots ''A'' [stored_link ''hs_A_0''] editor_AB)\<lparr>hotspotCounter := 1\<rparr>) \<and>
   hs_id (stored_link ''hs_A_0'') \<noteq> Some ''hs_B_001''"
proof -
  have "step (AddHotspot 0 0 (door_form [] ''B'')) editor_AB =
      Inr ((set_hotSpots ''A'' [stored_link ''hs_A_0''] editor_AB)\<lparr>hotspotCounter := 1\<rparr>)"
    by (simp add: door_form_def editor_AB_def hotspot_defs string_defs editor_defs object_defs
        new_scene_def stored_link_def Let_def)
  then have "run (two_scenes @ [AddHotspot 0 0 (door_form [] ''B'')]) initial_editor =
      Inr ((set_hotSpots ''A'' [stored_link ''hs_A_0''] editor_AB)\<lparr>hotspotCounter := 1\<rparr>)"
    by (simp only: run_append run_two_scenes sum.case run.simps)
  then show ?thesis by (simp add: stored_link_def)
qed


section \<open>Importing a document\<close>

subsection \<open>Numbers in hotspot ids\<close>
















subsection \<open>The two passes over the hotspots\<close>












lemma assign_ids_length [simp]: "length (assign_ids xs c) = length xs"
  by (induction xs arbitrary: c) auto

lemma missing_before_0 [simp]: "missing_before xs 0 = 0"
  by (simp add: missing_before_def)








lemma max_counter_owned: "max_counter m = highest_counter (owned_hotspots m) 0"
proof -
  have inner: "fold (\<lambda>h mx'. case id_counter h of None \<Rightarrow> mx' | Some c \<Rightarrow> max mx' c) hs mx =
      highest_counter (map (Pair k) hs) mx" for hs mx k
    by (induction hs arbitrary: mx) (simp_all add: highest_counter_def)
  have app: "highest_counter (xs @ ys) mx = highest_counter ys (highest_counter xs mx)" for xs ys mx
    by (simp add: highest_counter_def)
  have "fold (\<lambda>(sceneId, sc) mx.
             fold (\<lambda>h mx'. case id_counter h of None \<Rightarrow> mx' | Some c \<Rightarrow> max mx' c)
                  (hotSpots sc) mx) m mx = highest_counter (owned_hotspots m) mx" for mx
  proof (induction m arbitrary: mx)
    case Nil
    then show ?case by (simp add: highest_counter_def)
  next
    case (Cons e m)
    obtain k sc where e: "e = (k, sc)" by (cases e)
    let ?G = "\<lambda>h mx'. case id_counter h of None \<Rightarrow> mx' | Some c \<Rightarrow> max mx' c"
    let ?F = "\<lambda>(sceneId, sc) mx. fold ?G (hotSpots sc) mx"
    have "fold ?F (e # m) mx = fold ?F m (fold ?G (hotSpots sc) mx)" by (simp add: e)
    also have "\<dots> = highest_counter (owned_hotspots m) (fold ?G (hotSpots sc) mx)" by (rule Cons.IH)
    also have "\<dots> = highest_counter (owned_hotspots m) (highest_counter (map (Pair k) (hotSpots sc)) mx)"
      by (simp only: inner [of _ _ k])
    also have "\<dots> = highest_counter (owned_hotspots (e # m)) mx" by (simp add: e app)
    finally show ?case .
  qed
  then show ?thesis by (simp add: max_counter_def)
qed

subsection \<open>The import\<close>

lemma ensureHotspotIds_parts:
  "ed_scenes (ensureHotspotIds st) =
     fst (fix_scenes (ed_scenes st) (double_round (max_counter (ed_scenes st) + 1)))"
  "hotspotCounter (ensureHotspotIds st) =
     snd (fix_scenes (ed_scenes st) (double_round (max_counter (ed_scenes st) + 1)))"
  "ed_sceneOrder (ensureHotspotIds st) = ed_sceneOrder st"
  "ed_firstScene (ensureHotspotIds st) = ed_firstScene st"
  by (simp_all add: ensureHotspotIds_def Let_def case_prod_beta)

lemma importConfiguration_parts:
  "ed_sceneOrder (importConfiguration raw st) =
     (case i_sceneOrder (i_default raw) of
        None \<Rightarrow> Object_keys (i_scenes raw)
      | Some ks \<Rightarrow> if ks = [] then Object_keys (i_scenes raw) else ks)"
  "ed_scenes (importConfiguration raw st) =
     ed_scenes (reorderScenes (ed_sceneOrder (importConfiguration raw st))
       (set_scenes (fst (fix_scenes (i_scenes raw)
                         (double_round (max_counter (i_scenes raw) + 1)))) st))"
  "hotspotCounter (importConfiguration raw st) =
     snd (fix_scenes (i_scenes raw) (double_round (max_counter (i_scenes raw) + 1)))"
  by (simp_all add: importConfiguration_def Let_def selectScene_def reorderScenes_parts
      ensureHotspotIds_parts split: option.splits)





lemma lacks_id_examples:
  "lacks_id (unnamed_link t)" "\<not> lacks_id (link (CHR ''h'' # s) t)"
  by (simp_all add: unnamed_link_def link_def lacks_id_def trim_empty_iff is_ws_def)

lemma id_counter_examples:
  "id_counter (unnamed_link t) = None"
  "id_counter (link ''hs_b_7'' t) = Some 7"
  "id_counter (link ''hs_7'' t) = None"
  by (simp_all add: unnamed_link_def link_def id_counter_def startsWith_def parseInt_def
      radix_digit_def is_ws_def Let_def double_round_exact)

lemma unnamed_link_named: "(unnamed_link t)\<lparr>hs_id := Some s\<rparr> = link s t"
  by (simp add: unnamed_link_def link_def)











text \<open>
  A scene id that is an array index keeps the place that the key order of objects gives
  it, whatever the scene order says.
\<close>

lemma import_numeric_key:
  "ed_sceneOrder (importConfiguration numeric_import initial_editor) = [''a'', ''1''] \<and>
   Object_keys (ed_scenes (importConfiguration numeric_import initial_editor)) = [''1'', ''a'']"
proof -
  have so: "i_sceneOrder (i_default numeric_import) = Some [''a'', ''1'']"
    and sc: "i_scenes numeric_import = [(''1'', plain_scene []), (''a'', plain_scene [])]"
    by (simp_all add: numeric_import_def import_of_def)
  have order: "ed_sceneOrder (importConfiguration numeric_import initial_editor) = [''a'', ''1'']"
    by (simp add: importConfiguration_parts(1) so)
  have fixed: "fst (fix_scenes (i_scenes numeric_import) c) = i_scenes numeric_import" for c
    by (simp add: sc plain_scene_def)
  have "ed_scenes (importConfiguration numeric_import initial_editor) =
      [(''1'', plain_scene []), (''a'', plain_scene [])]"
    unfolding importConfiguration_parts(2) order fixed
    by (simp add: reorderScenes_parts sc object_defs)
  then show ?thesis using order by simp
qed

text \<open>
  From \<open>2^53\<close> on the counter stalls: \<open>2^53 + 1\<close> is no double and rounds back to \<open>2^53\<close>.
  Beside the imported id \<open>hs_a_9007199254740992\<close> every hotspot of scene \<open>a\<close> without an id
  gets that same id.
\<close>

lemma double_round_stalls_numeral: "double_round 9007199254740993 = 9007199254740992"
  using double_round_stalls by simp

lemma id_counter_2_53: "id_counter (link ''hs_a_9007199254740992'' t) = Some 9007199254740992"
  by (simp add: link_def id_counter_def startsWith_def parseInt_def
      radix_digit_def is_ws_def Let_def double_round_exact)

lemma Number_toString_2_53: "Number_toString 9007199254740992 = ''9007199254740992''"
  by (simp add: Number_toString_def dec.simps digit_char_def)

lemma overflow_import_facts:
  "i_sceneOrder (i_default overflow_import) = None"
  "i_scenes overflow_import =
     [(''a'', plain_scene [link ''hs_a_9007199254740992'' ''b'', unnamed_link ''b'',
                          unnamed_link ''b'']),
      (''b'', plain_scene [])]"
  "owned_hotspots (i_scenes overflow_import) =
     [(''a'', link ''hs_a_9007199254740992'' ''b''), (''a'', unnamed_link ''b''),
      (''a'', unnamed_link ''b'')]"
  by (simp_all add: overflow_import_def import_of_def plain_scene_def)

lemma overflow_import_seed:
  "double_round (max_counter (i_scenes overflow_import) + 1) = 9007199254740992"
  by (simp add: max_counter_owned overflow_import_facts(3) highest_counter_def id_counter_2_53
      id_counter_examples double_round_stalls_numeral)

lemma overflow_import_fixed:
  "fix_scenes (i_scenes overflow_import) 9007199254740992 =
     ([(''a'', plain_scene [link ''hs_a_9007199254740992'' ''b'', link ''hs_a_9007199254740992'' ''b'',
                           link ''hs_a_9007199254740992'' ''b'']),
       (''b'', plain_scene [])], 9007199254740992)"
  by (simp add: overflow_import_facts(2) plain_scene_def fixMissingHotspotId_def lacks_id_examples
      Number_toString_2_53 unnamed_link_named double_round_stalls_numeral)

lemma import_counter_stalls:
  "owned_hotspots (i_scenes overflow_import) =
     [(''a'', link ''hs_a_9007199254740992'' ''b''), (''a'', unnamed_link ''b''),
      (''a'', unnamed_link ''b'')] \<and>
   owned_hotspots (ed_scenes (importConfiguration overflow_import initial_editor)) =
     [(''a'', link ''hs_a_9007199254740992'' ''b''), (''a'', link ''hs_a_9007199254740992'' ''b''),
      (''a'', link ''hs_a_9007199254740992'' ''b'')] \<and>
   hotspotCounter (importConfiguration overflow_import initial_editor) = 2 ^ 53"
proof -
  have order: "ed_sceneOrder (importConfiguration overflow_import initial_editor) = [''a'', ''b'']"
    by (simp add: importConfiguration_parts(1) overflow_import_facts(1,2))
  have sc: "ed_scenes (importConfiguration overflow_import initial_editor) =
      [(''a'', plain_scene [link ''hs_a_9007199254740992'' ''b'', link ''hs_a_9007199254740992'' ''b'',
                           link ''hs_a_9007199254740992'' ''b'']),
       (''b'', plain_scene [])]"
    unfolding importConfiguration_parts(2) order overflow_import_seed overflow_import_fixed
    by (simp add: reorderScenes_parts object_defs)
  have cnt: "hotspotCounter (importConfiguration overflow_import initial_editor) = 2 ^ 53"
    unfolding importConfiguration_parts(3) overflow_import_seed overflow_import_fixed by simp
  show ?thesis
    unfolding sc using cnt by (simp add: overflow_import_facts(3) plain_scene_def)
qed

end
